theory Spec2Isabelle
  imports Main
begin

section \<open>The notebook's view of the outside world\<close>

text \<open>
  The notebook \<^verbatim>\<open>Indexing.ipynb\<close> is a sequence of code cells that call the Azure Cosmos DB
  client library, fetch one JSON file over HTTP, read the wall clock, sleep and print.
  The model keeps the control flow of every cell and makes each effect explicit:
  \<^item> every call that leaves the process is recorded, with its arguments and its reply, in
    a trace;
  \<^item> the replies are not computed by the model: they are taken from an environment, a
    record of functions of the trace so far (so a reply may depend on everything the
    notebook did before, including how long it slept);
  \<^item> an exception is a value of type \<open>exn\<close>, and a cell returns \<open>Inl e\<close> when \<open>e\<close> leaves it
    uncaught.
  The objects \<^verbatim>\<open>database_client\<close> and \<^verbatim>\<open>container_client\<close> are built locally by
  \<^verbatim>\<open>get_database_client\<close> and \<^verbatim>\<open>get_container_client\<close> without a request; they are fixed by
  the two names below and do not appear as calls.
\<close>

datatype pyval = PStr string | PInt int

type_synonym dict = "(string \<times> pyval) list"

type_synonym headers = "(string \<times> string) list"

text \<open>
  \<^verbatim>\<open>azure.cosmos.errors.CosmosHttpResponseError\<close> carries \<^verbatim>\<open>status_code\<close> (which may be
  \<^verbatim>\<open>None\<close>); \<^verbatim>\<open>KeyError\<close> is what a subscript of a dictionary raises on a missing key;
  \<open>OtherError\<close> stands for every exception of another class.
\<close>

datatype exn = CosmosHttpResponseError "int option" | KeyError string | OtherError string

record indexing_policy =
  indexingMode :: string
  includedPaths :: "string list"
  excludedPaths :: "string list"

datatype call =
    CreateDatabase string
  | ListContainers
  | DeleteContainer string
  | CreateContainer string string
  | UrlopenJson string
  | CreateItem dict
  | QueryItems string bool
  | ReplaceContainer string string indexing_policy
  | ReadContainer bool
  | DeleteDatabase string

datatype reply =
    Raised exn
  | Returned headers
  | ReturnedDicts "dict list" headers
  | ReturnedJson "dict list"
  | ReturnedPages "(dict list \<times> headers) list"

datatype 't event =
    Call call reply
  | Sleep nat
  | Print string
  | Clock 't

text \<open>
  The environment. \<open>'t\<close> is the type of \<^verbatim>\<open>time.time()\<close> values (floats in the source);
  \<open>fmt_elapsed_ms t0 t1\<close> stands for the text of \<^verbatim>\<open>'%d' % ((t1 - t0) * 1000)\<close>, whose float
  arithmetic is left to the environment.
\<close>

record 't env =
  srv_create_database :: "'t event list \<Rightarrow> string \<Rightarrow> exn + headers"
  srv_list_containers :: "'t event list \<Rightarrow> exn + dict list \<times> headers"
  srv_delete_container :: "'t event list \<Rightarrow> string \<Rightarrow> exn + headers"
  srv_create_container :: "'t event list \<Rightarrow> string \<Rightarrow> string \<Rightarrow> exn + headers"
  srv_urlopen_json :: "'t event list \<Rightarrow> string \<Rightarrow> exn + dict list"
  srv_create_item :: "'t event list \<Rightarrow> dict \<Rightarrow> exn + headers"
  srv_query_items :: "'t event list \<Rightarrow> string \<Rightarrow> bool \<Rightarrow> exn + (dict list \<times> headers) list"
  srv_replace_container ::
    "'t event list \<Rightarrow> string \<Rightarrow> string \<Rightarrow> indexing_policy \<Rightarrow> exn + headers"
  srv_read_container :: "'t event list \<Rightarrow> bool \<Rightarrow> exn + headers"
  srv_delete_database :: "'t event list \<Rightarrow> string \<Rightarrow> exn + headers"
  wall_clock :: "'t event list \<Rightarrow> 't"
  fmt_elapsed_ms :: "'t \<Rightarrow> 't \<Rightarrow> string"

text \<open>
  The state of a run: the trace, and the client's
  \<^verbatim>\<open>client_connection.last_response_headers\<close>, overwritten by every response received.
\<close>

record 't state =
  trace :: "'t event list"
  last_response_headers :: headers

type_synonym ('t, 'a) cell = "'t state \<Rightarrow> (exn + 'a) \<times> 't state"

definition then_do :: "('t, 'a) cell \<Rightarrow> ('a \<Rightarrow> ('t, 'b) cell) \<Rightarrow> ('t, 'b) cell" where
  "then_do m f s = (case m s of (Inl e, s') \<Rightarrow> (Inl e, s') | (Inr a, s') \<Rightarrow> f a s')"

definition return_ok :: "'a \<Rightarrow> ('t, 'a) cell" where
  "return_ok x s = (Inr x, s)"

definition done_ok :: "('t, unit) cell" where
  "done_ok = return_ok ()"

definition emit :: "'t event \<Rightarrow> 't state \<Rightarrow> 't state" where
  "emit ev s = s\<lparr>trace := trace s @ [ev]\<rparr>"

text \<open>The headers of the last response a reply consists of, if it has any.\<close>

fun reply_headers :: "reply \<Rightarrow> headers option" where
  "reply_headers (Raised e) = None"
| "reply_headers (Returned h) = Some h"
| "reply_headers (ReturnedDicts ds h) = Some h"
| "reply_headers (ReturnedJson ds) = None"
| "reply_headers (ReturnedPages ps) = (if ps = [] then None else Some (snd (last ps)))"

definition record_call :: "call \<Rightarrow> reply \<Rightarrow> 't state \<Rightarrow> 't state" where
  "record_call c r s =
     \<lparr>trace = trace s @ [Call c r],
      last_response_headers =
        (case reply_headers r of None \<Rightarrow> last_response_headers s | Some h \<Rightarrow> h)\<rparr>"

definition invoke ::
  "call \<Rightarrow> (exn + 'a) \<Rightarrow> ('a \<Rightarrow> reply) \<Rightarrow> ('t, 'a) cell" where
  "invoke c res wrap s =
     (case res of
        Inl e \<Rightarrow> (Inl e, record_call c (Raised e) s)
      | Inr a \<Rightarrow> (Inr a, record_call c (wrap a) s))"

subsection \<open>The library calls the cells make\<close>

text \<open>\<^verbatim>\<open>print(msg)\<close> writes the message and a newline; \<^verbatim>\<open>print(msg, end="", flush=True)\<close>
  writes the message alone.\<close>

definition print :: "string \<Rightarrow> ('t, unit) cell" where
  "print msg s = (Inr (), emit (Print (msg @ [CHR 0x0A])) s)"

definition print_noend :: "string \<Rightarrow> ('t, unit) cell" where
  "print_noend msg s = (Inr (), emit (Print msg) s)"

definition sleep :: "nat \<Rightarrow> ('t, unit) cell" where
  "sleep secs s = (Inr (), emit (Sleep secs) s)"

definition time_time :: "'t env \<Rightarrow> ('t, 't) cell" where
  "time_time env s = (let t = wall_clock env (trace s) in (Inr t, emit (Clock t) s))"

definition create_database :: "'t env \<Rightarrow> string \<Rightarrow> ('t, headers) cell" where
  "create_database env name s =
     invoke (CreateDatabase name) (srv_create_database env (trace s) name) Returned s"

text \<open>\<^verbatim>\<open>database_client.list_containers()\<close>, with the iteration over its result: the
  properties of the containers, as one reply (the paging of the listing is not modelled).\<close>

definition list_containers :: "'t env \<Rightarrow> ('t, dict list \<times> headers) cell" where
  "list_containers env s =
     invoke ListContainers (srv_list_containers env (trace s))
       (\<lambda>(ds, h). ReturnedDicts ds h) s"

definition delete_container :: "'t env \<Rightarrow> string \<Rightarrow> ('t, headers) cell" where
  "delete_container env name s =
     invoke (DeleteContainer name) (srv_delete_container env (trace s) name) Returned s"

definition create_container :: "'t env \<Rightarrow> string \<Rightarrow> string \<Rightarrow> ('t, headers) cell" where
  "create_container env name pk s =
     invoke (CreateContainer name pk) (srv_create_container env (trace s) name pk) Returned s"

text \<open>\<^verbatim>\<open>urlopen(...)\<close>, \<^verbatim>\<open>url.read().decode()\<close> and \<^verbatim>\<open>json.loads\<close> together: the JSON
  array of documents, or the exception one of the three raises.\<close>

definition urlopen_json :: "'t env \<Rightarrow> string \<Rightarrow> ('t, dict list) cell" where
  "urlopen_json env url s =
     invoke (UrlopenJson url) (srv_urlopen_json env (trace s) url) ReturnedJson s"

definition create_item :: "'t env \<Rightarrow> dict \<Rightarrow> ('t, headers) cell" where
  "create_item env doc s =
     invoke (CreateItem doc) (srv_create_item env (trace s) doc) Returned s"

text \<open>\<^verbatim>\<open>list(container_client.query_items(...))\<close>: the pages of the result, each with the
  headers of its response, fetched until the last one.\<close>

definition query_items ::
  "'t env \<Rightarrow> string \<Rightarrow> bool \<Rightarrow> ('t, (dict list \<times> headers) list) cell" where
  "query_items env query enable_cross_partition_query s =
     invoke (QueryItems query enable_cross_partition_query)
       (srv_query_items env (trace s) query enable_cross_partition_query) ReturnedPages s"

definition replace_container ::
  "'t env \<Rightarrow> string \<Rightarrow> string \<Rightarrow> indexing_policy \<Rightarrow> ('t, headers) cell" where
  "replace_container env name pk pol s =
     invoke (ReplaceContainer name pk pol) (srv_replace_container env (trace s) name pk pol)
       Returned s"

definition read_container :: "'t env \<Rightarrow> bool \<Rightarrow> ('t, headers) cell" where
  "read_container env populate_quota_info s =
     invoke (ReadContainer populate_quota_info)
       (srv_read_container env (trace s) populate_quota_info) Returned s"

definition delete_database :: "'t env \<Rightarrow> string \<Rightarrow> ('t, headers) cell" where
  "delete_database env name s =
     invoke (DeleteDatabase name) (srv_delete_database env (trace s) name) Returned s"

text \<open>\<^verbatim>\<open>container_client.client_connection.last_response_headers[key]\<close>.\<close>

definition last_response_header :: "string \<Rightarrow> ('t, string) cell" where
  "last_response_header key s =
     (case map_of (last_response_headers s) key of
        None \<Rightarrow> (Inl (KeyError key), s)
      | Some v \<Rightarrow> (Inr v, s))"

subsection \<open>Decimal text of a number\<close>

definition digit_char :: "nat \<Rightarrow> char" where
  "digit_char d = ''0123456789'' ! d"

fun str_nat :: "nat \<Rightarrow> string" where
  "str_nat n = (if n < 10 then [digit_char n] else str_nat (n div 10) @ [digit_char (n mod 10)])"

declare str_nat.simps [simp del]

text \<open>\<^verbatim>\<open>"%5d" % n\<close> for a non-negative \<open>n\<close>: right-justified in five columns.\<close>

definition fmt_5d :: "nat \<Rightarrow> string" where
  "fmt_5d n = replicate (5 - length (str_nat n)) (CHR '' '') @ str_nat n"

section \<open>The cells\<close>

definition db_name :: string where
  "db_name = ''iddbtest''"

definition container_name :: string where
  "container_name = ''idcltest''"

subsection \<open>Cell 1: set-up\<close>

text \<open>
  \<^verbatim>\<open>
  try:
      cosmos_client.create_database(db_name)
      print('Database created')
      time.sleep(2)
  except azure.cosmos.errors.CosmosHttpResponseError as e:
      if e.status_code == 409:
         print('Database already exists')
      else:
          raise
  \<close>
\<close>

definition cell1_try :: "'t env \<Rightarrow> ('t, unit) cell" where
  "cell1_try env s =
     (case create_database env db_name s of
        (Inr _, s1) \<Rightarrow> then_do (print ''Database created'') (\<lambda>_. sleep 2) s1
      | (Inl e, s1) \<Rightarrow>
          (case e of
             CosmosHttpResponseError status_code \<Rightarrow>
               if status_code = Some 409 then print ''Database already exists'' s1
               else (Inl e, s1)
           | _ \<Rightarrow> (Inl e, s1)))"

text \<open>\<^verbatim>\<open>any(container['id'] == container_name for container in containers)\<close>: the
  generator is consumed from the left and stops at the first match; a dictionary without
  the key raises.\<close>

fun any_id_is :: "string \<Rightarrow> dict list \<Rightarrow> exn + bool" where
  "any_id_is name [] = Inr False"
| "any_id_is name (container # containers) =
     (case map_of container ''id'' of
        None \<Rightarrow> Inl (KeyError ''id'')
      | Some v \<Rightarrow> if v = PStr name then Inr True else any_id_is name containers)"

text \<open>
  \<^verbatim>\<open>
  database_client = cosmos_client.get_database_client(db_name)
  containers = database_client.list_containers()
  if (any(container['id'] == container_name for container in containers)):
      database_client.delete_container(container_name)
      print('Container dropped')
  database_client.create_container(container_name, azure.cosmos.PartitionKey(path="/id"))
  print('Container created')
  \<close>
\<close>

definition cell1_reset :: "'t env \<Rightarrow> ('t, unit) cell" where
  "cell1_reset env =
     then_do (list_containers env) (\<lambda>(containers, _).
     then_do (\<lambda>s. (any_id_is container_name containers, s)) (\<lambda>found.
     then_do (if found
              then then_do (delete_container env container_name)
                     (\<lambda>_. print ''Container dropped'')
              else done_ok) (\<lambda>_.
     then_do (create_container env container_name ''/id'') (\<lambda>_.
     print ''Container created''))))"

definition cell1 :: "'t env \<Rightarrow> ('t, unit) cell" where
  "cell1 env = then_do (cell1_try env) (\<lambda>_. cell1_reset env)"

subsection \<open>Cell 3: bulk load\<close>

definition data_url :: string where
  "data_url = ''https://cosmosnotebooksdata.blob.core.windows.net/notebookdata/indexing.json''"

text \<open>
  \<^verbatim>\<open>
  progress = 1
  for doc in docs:
      if progress % 10 == 0:
          print("Inserting document: %5d / 10000\r"% (progress), end="", flush=True)
      container_client.create_item(doc)
      progress += 1
  \<close>
\<close>

fun insert_docs :: "'t env \<Rightarrow> dict list \<Rightarrow> nat \<Rightarrow> ('t, unit) cell" where
  "insert_docs env [] progress = done_ok"
| "insert_docs env (doc # docs) progress =
     then_do (if progress mod 10 = 0
              then print_noend (''Inserting document: '' @ fmt_5d progress @ '' / 10000'' @ [CHR 0x0D])
              else done_ok) (\<lambda>_.
     then_do (create_item env doc) (\<lambda>_.
     insert_docs env docs (progress + 1)))"

definition cell3 :: "'t env \<Rightarrow> ('t, unit) cell" where
  "cell3 env = then_do (urlopen_json env data_url) (\<lambda>docs. insert_docs env docs 1)"

subsection \<open>Cells 5, 9, 13 and 15: query and measure\<close>

text \<open>
  The four cells have the same code and differ in the query text only:
  \<^verbatim>\<open>
  start = time.time()
  results = list(container_client.query_items(
      query=query,
      enable_cross_partition_query=True))
  end = time.time()

  print('Got ' + str(len(results)) + ' result(s)')
  print('Time elapsed: %d ms'% ((end - start) * 1000))
  print('Request charge: ' + container_client.client_connection.last_response_headers['x-ms-request-charge'] + ' RUs')
  \<close>
\<close>

definition query_and_measure :: "'t env \<Rightarrow> string \<Rightarrow> ('t, unit) cell" where
  "query_and_measure env query =
     then_do (time_time env) (\<lambda>start.
     then_do (query_items env query True) (\<lambda>pages.
     then_do (time_time env) (\<lambda>end.
     then_do (print (''Got '' @ str_nat (length (concat (map fst pages))) @ '' result(s)'')) (\<lambda>_.
     then_do (print (''Time elapsed: '' @ fmt_elapsed_ms env start end @ '' ms'')) (\<lambda>_.
     then_do (last_response_header ''x-ms-request-charge'') (\<lambda>charge.
     print (''Request charge: '' @ charge @ '' RUs'')))))))"

definition query_field1 :: string where
  "query_field1 = ''SELECT * FROM c WHERE c.field1 = \"Mario86\"''"

definition query_field2 :: string where
  "query_field2 = ''SELECT * FROM c WHERE c.field2 = 3188''"

definition cell5 :: "'t env \<Rightarrow> ('t, unit) cell" where
  "cell5 env = query_and_measure env query_field1"

definition cell9 :: "'t env \<Rightarrow> ('t, unit) cell" where
  "cell9 env = query_and_measure env query_field1"

definition cell13 :: "'t env \<Rightarrow> ('t, unit) cell" where
  "cell13 env = query_and_measure env query_field1"

definition cell15 :: "'t env \<Rightarrow> ('t, unit) cell" where
  "cell15 env = query_and_measure env query_field2"

subsection \<open>Cell 7: indexing off\<close>

definition policy_none :: indexing_policy where
  "policy_none = \<lparr>indexingMode = ''none'', includedPaths = [], excludedPaths = []\<rparr>"

definition cell7 :: "'t env \<Rightarrow> ('t, unit) cell" where
  "cell7 env =
     then_do (replace_container env container_name ''/id'' policy_none) (\<lambda>_.
     print ''Indexing policy updated'')"

subsection \<open>Cell 11: exclude a path and wait for the index\<close>

definition policy_exclude_field2 :: indexing_policy where
  "policy_exclude_field2 =
     \<lparr>indexingMode = ''consistent'', includedPaths = [''/*''], excludedPaths = [''/field2/?'']\<rparr>"

definition progress_header :: string where
  "progress_header = ''x-ms-documentdb-collection-index-transformation-progress''"

text \<open>
  \<^verbatim>\<open>
  container_client.read(populate_quota_info=True)
  index_transformation_progress = container_client.client_connection.last_response_headers[...]
  print('\rCurrent index transformation progress: ' + index_transformation_progress + '%', end="", flush=True)
  \<close>
\<close>

definition read_progress :: "'t env \<Rightarrow> ('t, string) cell" where
  "read_progress env =
     then_do (read_container env True) (\<lambda>_.
     then_do (last_response_header progress_header) (\<lambda>index_transformation_progress.
     then_do (print_noend ([CHR 0x0D] @ ''Current index transformation progress: ''
                @ index_transformation_progress @ ''%'')) (\<lambda>_.
     return_ok index_transformation_progress)))"

text \<open>
  \<^verbatim>\<open>
  while (index_transformation_progress != '100'):
      time.sleep(5)
      container_client.read(populate_quota_info=True)
      index_transformation_progress = ...
      print(...)
  \<close>
  The loop has no counter: it may run forever, and then its value is \<open>None\<close>.
\<close>

partial_function (option) wait_for_index ::
  "'t env \<Rightarrow> string \<Rightarrow> 't state \<Rightarrow> ((exn + unit) \<times> 't state) option" where
  "wait_for_index env index_transformation_progress s =
     (if index_transformation_progress \<noteq> ''100''
      then (case then_do (sleep 5) (\<lambda>_. read_progress env) s of
              (Inl e, s') \<Rightarrow> Some (Inl e, s')
            | (Inr p, s') \<Rightarrow> wait_for_index env p s')
      else Some (Inr (), s))"

declare wait_for_index.simps [code]

definition cell11 :: "'t env \<Rightarrow> 't state \<Rightarrow> ((exn + unit) \<times> 't state) option" where
  "cell11 env s =
     (case then_do (replace_container env container_name ''/id'' policy_exclude_field2) (\<lambda>_.
           then_do (print ''Indexing policy updated'') (\<lambda>_.
           read_progress env)) s of
        (Inl e, s1) \<Rightarrow> Some (Inl e, s1)
      | (Inr p, s1) \<Rightarrow>
          (case wait_for_index env p s1 of
             None \<Rightarrow> None
           | Some (Inl e, s2) \<Rightarrow> Some (Inl e, s2)
           | Some (Inr _, s2) \<Rightarrow> Some (print ([CHR 0x0A] @ ''Index transformation completed'') s2)))"

subsection \<open>Cell 17: clean-up\<close>

definition cell17 :: "'t env \<Rightarrow> ('t, unit) cell" where
  "cell17 env = then_do (delete_database env db_name) (\<lambda>_. done_ok)"

subsection \<open>The whole notebook, top to bottom\<close>

definition cells_1_to_9 :: "'t env \<Rightarrow> ('t, unit) cell" where
  "cells_1_to_9 env =
     then_do (cell1 env) (\<lambda>_.
     then_do (cell3 env) (\<lambda>_.
     then_do (cell5 env) (\<lambda>_.
     then_do (cell7 env) (\<lambda>_.
     cell9 env))))"

definition cells_13_to_17 :: "'t env \<Rightarrow> ('t, unit) cell" where
  "cells_13_to_17 env =
     then_do (cell13 env) (\<lambda>_.
     then_do (cell15 env) (\<lambda>_.
     cell17 env))"

definition notebook :: "'t env \<Rightarrow> 't state \<Rightarrow> ((exn + unit) \<times> 't state) option" where
  "notebook env s =
     (case cells_1_to_9 env s of
        (Inl e, s1) \<Rightarrow> Some (Inl e, s1)
      | (Inr _, s1) \<Rightarrow>
          (case cell11 env s1 of
             None \<Rightarrow> None
           | Some (Inl e, s2) \<Rightarrow> Some (Inl e, s2)
           | Some (Inr _, s2) \<Rightarrow> Some (cells_13_to_17 env s2)))"

section \<open>What a trace tells\<close>

text \<open>The documents \<^verbatim>\<open>create_item\<close> was called with, and those for which it returned.\<close>

fun attempted_items :: "'t event list \<Rightarrow> dict list" where
  "attempted_items [] = []"
| "attempted_items (Call (CreateItem doc) r # evs) = doc # attempted_items evs"
| "attempted_items (ev # evs) = attempted_items evs"

fun created_items :: "'t event list \<Rightarrow> dict list" where
  "created_items [] = []"
| "created_items (Call (CreateItem doc) (Returned h) # evs) = doc # created_items evs"
| "created_items (ev # evs) = created_items evs"

text \<open>The line the load loop prints before every tenth insertion.\<close>

definition progress_line :: "nat \<Rightarrow> 't event list" where
  "progress_line n =
     (if n mod 10 = 0
      then [Print (''Inserting document: '' @ fmt_5d n @ '' / 10000'' @ [CHR 0x0D])]
      else [])"

text \<open>The events of a successful deletion and of a successful creation of the container in
  cell 1, each with the line printed after it.\<close>

definition dropped :: "headers \<Rightarrow> 't event list" where
  "dropped h = [Call (DeleteContainer container_name) (Returned h),
                Print (''Container dropped'' @ [CHR 0x0A])]"

definition created :: "headers \<Rightarrow> 't event list" where
  "created h = [Call (CreateContainer container_name ''/id'') (Returned h),
                Print (''Container created'' @ [CHR 0x0A])]"

text \<open>
  What the client's own calls have told it about the container \<open>name\<close>: the last listing,
  or a later deletion or creation that succeeded (the argument is the trace, latest event
  first).
\<close>

fun present_rev :: "string \<Rightarrow> 't event list \<Rightarrow> bool" where
  "present_rev name [] = False"
| "present_rev name (Call ListContainers (ReturnedDicts ds h) # evs) =
     list_ex (\<lambda>d. map_of d ''id'' = Some (PStr name)) ds"
| "present_rev name (Call (DeleteContainer n) (Returned h) # evs) =
     (if n = name then False else present_rev name evs)"
| "present_rev name (Call (CreateContainer n pk) (Returned h) # evs) =
     (if n = name then True else present_rev name evs)"
| "present_rev name (Call (DeleteDatabase n) (Returned h) # evs) = False"
| "present_rev name (ev # evs) = present_rev name evs"

definition container_present :: "'t event list \<Rightarrow> string \<Rightarrow> bool" where
  "container_present tr name = present_rev name (rev tr)"

text \<open>
  The documents the client has put into the container \<^verbatim>\<open>idcltest\<close> since it last created it:
  \<open>None\<close> when its last successful operation on the container was not a creation (the
  argument is the trace, latest event first).
\<close>

fun docs_rev :: "'t event list \<Rightarrow> dict list option" where
  "docs_rev [] = None"
| "docs_rev (Call (CreateContainer n pk) (Returned h) # evs) =
     (if n = container_name then Some [] else docs_rev evs)"
| "docs_rev (Call (DeleteContainer n) (Returned h) # evs) =
     (if n = container_name then None else docs_rev evs)"
| "docs_rev (Call (DeleteDatabase n) (Returned h) # evs) = None"
| "docs_rev (Call (CreateItem doc) (Returned h) # evs) =
     map_option (\<lambda>docs. docs @ [doc]) (docs_rev evs)"
| "docs_rev (ev # evs) = docs_rev evs"

definition container_docs :: "'t event list \<Rightarrow> dict list option" where
  "container_docs tr = docs_rev (rev tr)"

definition conflict :: exn where
  "conflict = CosmosHttpResponseError (Some 409)"

text \<open>
  A service on which the set-up can only fail because something exists already or is
  missing: creating the database fails with a conflict or not at all, the listing is
  answered with well-formed entries, an existing container can be deleted and an absent
  one can be created.
\<close>

definition fails_on_conflict_only :: "'t env \<Rightarrow> bool" where
  "fails_on_conflict_only env \<longleftrightarrow>
     (\<forall>tr. case srv_create_database env tr db_name of Inr h \<Rightarrow> True | Inl e \<Rightarrow> e = conflict) \<and>
     (\<forall>tr. case srv_list_containers env tr of
             Inr (ds, h) \<Rightarrow> list_all (\<lambda>d. map_of d ''id'' \<noteq> None) ds
           | Inl e \<Rightarrow> False) \<and>
     (\<forall>tr. container_present tr container_name \<longrightarrow>
             (\<exists>h. srv_delete_container env tr container_name = Inr h)) \<and>
     (\<forall>tr. \<not> container_present tr container_name \<longrightarrow>
             (\<exists>h. srv_create_container env tr container_name ''/id'' = Inr h))"

text \<open>The line cell 11 prints after each reading of the progress header.\<close>

definition progress_msg :: "string \<Rightarrow> string" where
  "progress_msg p = [CHR 0x0D] @ ''Current index transformation progress: '' @ p @ ''%''"

text \<open>
  \<open>waited p evs\<close>: the events \<open>evs\<close> are the turns of a wait that starts with the progress
  \<open>p\<close> and ends normally. Each turn is a sleep of five seconds, a successful
  \<^verbatim>\<open>read(populate_quota_info=True)\<close> and the printed progress from its header; a turn is
  taken exactly when the progress before it is not \<^verbatim>\<open>'100'\<close>.
\<close>

fun waited :: "string \<Rightarrow> 't event list \<Rightarrow> bool" where
  "waited p [] = (p = ''100'')"
| "waited p (Sleep n # Call (ReadContainer q) (Returned h) # Print msg # evs) =
     (p \<noteq> ''100'' \<and> n = 5 \<and> q \<and>
      (case map_of h progress_header of
         None \<Rightarrow> False
       | Some p' \<Rightarrow> msg = progress_msg p' \<and> waited p' evs))"
| "waited p evs = False"

text \<open>A service that always answers the reading, and never with \<^verbatim>\<open>'100'\<close>.\<close>

definition never_complete :: "'t env \<Rightarrow> bool" where
  "never_complete env \<longleftrightarrow>
     (\<forall>tr. case srv_read_container env tr True of
             Inl e \<Rightarrow> False
           | Inr h \<Rightarrow> (case map_of h progress_header of
                        None \<Rightarrow> False
                      | Some p \<Rightarrow> p \<noteq> ''100''))"

text \<open>
  \<open>loop_events env tr p evs r\<close>: asked turn by turn, starting after the trace \<open>tr\<close> with the
  progress \<open>p\<close>, the service \<open>env\<close> makes the wait produce exactly the events \<open>evs\<close> and
  end with \<open>r\<close>. A turn is taken when the progress is not \<^verbatim>\<open>'100'\<close>: a sleep of five seconds
  and a read. The wait ends normally before a turn when the progress is \<^verbatim>\<open>'100'\<close>; it ends
  with the exception of a read that raises, and with \<^verbatim>\<open>KeyError\<close> when a reply lacks the
  progress header; otherwise the progress is printed and the next turn starts from it.
\<close>

fun loop_events ::
  "'t env \<Rightarrow> 't event list \<Rightarrow> string \<Rightarrow> 't event list \<Rightarrow> exn + unit \<Rightarrow> bool" where
  "loop_events env tr p [] r = (p = ''100'' \<and> r = Inr ())"
| "loop_events env tr p [Sleep n, Call (ReadContainer q) rep] r =
     (p \<noteq> ''100'' \<and> n = 5 \<and> q \<and>
      (case srv_read_container env (tr @ [Sleep 5]) True of
         Inl e \<Rightarrow> rep = Raised e \<and> r = Inl e
       | Inr h \<Rightarrow> rep = Returned h \<and> map_of h progress_header = None \<and>
                  r = Inl (KeyError progress_header)))"
| "loop_events env tr p (Sleep n # Call (ReadContainer q) (Returned h) # Print msg # evs) r =
     (p \<noteq> ''100'' \<and> n = 5 \<and> q \<and>
      srv_read_container env (tr @ [Sleep 5]) True = Inr h \<and>
      (case map_of h progress_header of
         None \<Rightarrow> False
       | Some p' \<Rightarrow>
           msg = progress_msg p' \<and>
           loop_events env
             (tr @ [Sleep 5, Call (ReadContainer True) (Returned h), Print (progress_msg p')])
             p' evs r))"
| "loop_events env tr p evs r = False"

text \<open>
  \<open>still_waiting env tr p n\<close>: starting after the trace \<open>tr\<close> with the progress \<open>p\<close>, the
  wait takes \<open>n\<close> turns whose reads all return a progress, and is not over after them: no
  progress up to then is \<^verbatim>\<open>'100'\<close>.
\<close>

fun still_waiting :: "'t env \<Rightarrow> 't event list \<Rightarrow> string \<Rightarrow> nat \<Rightarrow> bool" where
  "still_waiting env tr p 0 = (p \<noteq> ''100'')"
| "still_waiting env tr p (Suc n) =
     (p \<noteq> ''100'' \<and>
      (case srv_read_container env (tr @ [Sleep 5]) True of
         Inl e \<Rightarrow> False
       | Inr h \<Rightarrow>
           (case map_of h progress_header of
              None \<Rightarrow> False
            | Some p' \<Rightarrow>
                still_waiting env
                  (tr @ [Sleep 5, Call (ReadContainer True) (Returned h), Print (progress_msg p')])
                  p' n)))"

text \<open>The exception an event records, if it is a call that raised.\<close>

fun raise_of :: "'t event \<Rightarrow> exn option" where
  "raise_of (Call c (Raised e)) = Some e"
| "raise_of ev = None"

text \<open>
  The notebook subscripts three replies: each entry of the listing with \<^verbatim>\<open>'id'\<close>, up to
  the first entry that matches; the headers of a query with \<^verbatim>\<open>'x-ms-request-charge'\<close>; the
  headers of a read with the progress header. \<open>key_error_due ev\<close> is the \<^verbatim>\<open>KeyError\<close> that
  the reply recorded in \<open>ev\<close> forces, because the key is missing from it.
\<close>

definition id_missing_first :: "string \<Rightarrow> dict list \<Rightarrow> bool" where
  "id_missing_first name ds =
     list_ex (\<lambda>d. map_of d ''id'' = None)
       (takeWhile (\<lambda>d. map_of d ''id'' \<noteq> Some (PStr name)) ds)"

fun key_error_due :: "'t event \<Rightarrow> exn option" where
  "key_error_due (Call ListContainers (ReturnedDicts ds h)) =
     (if id_missing_first container_name ds then Some (KeyError ''id'') else None)"
| "key_error_due (Call (QueryItems q x) (ReturnedPages pages)) =
     (if pages \<noteq> [] \<and> map_of (snd (last pages)) ''x-ms-request-charge'' = None
      then Some (KeyError ''x-ms-request-charge'') else None)"
| "key_error_due (Call (ReadContainer q) (Returned h)) =
     (if map_of h progress_header = None then Some (KeyError progress_header) else None)"
| "key_error_due ev = None"

text \<open>Events among which no call raised and no reply lacks a key the notebook asks for.\<close>

definition clean :: "'t event list \<Rightarrow> bool" where
  "clean evs = list_all (\<lambda>ev. raise_of ev = None \<and> key_error_due ev = None) evs"

text \<open>
  \<open>aborts_with e ev post\<close>: the event \<open>ev\<close> is where the exception \<open>e\<close> arose, and \<open>post\<close>
  are the events the notebook still produced before \<open>e\<close> left it. A call that raised \<open>e\<close>
  is followed by nothing. A listing or a read whose reply lacks the key is followed by
  nothing. A query is followed by the second clock reading and the first two printed lines,
  and then the subscript of the headers raises (with no page at all, the headers are those
  of an earlier response).
\<close>

fun aborts_with :: "exn \<Rightarrow> 't event \<Rightarrow> 't event list \<Rightarrow> bool" where
  "aborts_with e (Call c (Raised e')) post = (e' = e \<and> post = [])"
| "aborts_with e (Call (QueryItems q x) (ReturnedPages pages)) post =
     (e = KeyError ''x-ms-request-charge'' \<and>
      (pages = [] \<or> map_of (snd (last pages)) ''x-ms-request-charge'' = None) \<and>
      (case post of [Clock t, Print m1, Print m2] \<Rightarrow> True | _ \<Rightarrow> False))"
| "aborts_with e ev post = (key_error_due ev = Some e \<and> post = [])"

text \<open>
  \<open>propagated r evs\<close>: in the events \<open>evs\<close> of a run with result \<open>r\<close>, every exception
  that arose ended the run. If the run ended normally, the events are clean. If it ended
  with the exception \<open>e\<close>, the events before the one where \<open>e\<close> arose are clean, and that
  event ends the run as \<open>aborts_with\<close> says.
\<close>

definition propagated :: "exn + 'a \<Rightarrow> 't event list \<Rightarrow> bool" where
  "propagated r evs =
     (case r of
        Inr _ \<Rightarrow> clean evs
      | Inl e \<Rightarrow> (\<exists>pre ev post. evs = pre @ ev # post \<and> clean pre \<and> aborts_with e ev post))"

text \<open>The events after the one exception the notebook handles: a conflict raised by the
  creation of the database, first thing.\<close>

fun after_handled :: "'t event list \<Rightarrow> 't event list" where
  "after_handled (Call (CreateDatabase n) (Raised e) # evs) =
     (if e = conflict then evs else Call (CreateDatabase n) (Raised e) # evs)"
| "after_handled evs = evs"

text \<open>A cell in which every exception that arises ends the cell.\<close>

definition disciplined :: "('t, 'a) cell \<Rightarrow> bool" where
  "disciplined m \<longleftrightarrow>
     (\<forall>s r s'. m s = (r, s') \<longrightarrow> (\<exists>new. trace s' = trace s @ new \<and> propagated r new))"

section \<open>A simulated service, for concrete runs\<close>

text \<open>
  The theorems below hold for every environment. To run the cells on a concrete input,
  this environment answers from the trace alone, the way one client alone on a fresh
  account would be answered: the database exists when its last successful operation
  created it, the container when \<open>container_present\<close> says so, and a query returns the
  matching documents inserted so far.
\<close>

fun sim_db_exists :: "'t event list \<Rightarrow> bool" where
  "sim_db_exists [] = False"
| "sim_db_exists (Call (CreateDatabase n) (Returned h) # evs) = True"
| "sim_db_exists (Call (DeleteDatabase n) (Returned h) # evs) = False"
| "sim_db_exists (ev # evs) = sim_db_exists evs"

fun sim_sleeps_since_replace :: "'t event list \<Rightarrow> nat" where
  "sim_sleeps_since_replace [] = 0"
| "sim_sleeps_since_replace (Call (ReplaceContainer n pk pol) r # evs) = 0"
| "sim_sleeps_since_replace (Sleep k # evs) = Suc (sim_sleeps_since_replace evs)"
| "sim_sleeps_since_replace (ev # evs) = sim_sleeps_since_replace evs"

definition sim_matches :: "string \<Rightarrow> dict \<Rightarrow> bool" where
  "sim_matches query doc =
     (if query = ''SELECT * FROM c WHERE c.field1 = \"Mario86\"''
      then map_of doc ''field1'' = Some (PStr ''Mario86'')
      else if query = ''SELECT * FROM c WHERE c.field2 = 3188''
      then map_of doc ''field2'' = Some (PInt 3188)
      else False)"

definition sim_docs :: "dict list" where
  "sim_docs =
     [[(''field1'', PStr ''Mario86''), (''field2'', PInt 405)],
      [(''field1'', PStr ''Garry75''), (''field2'', PInt 3188)],
      [(''field1'', PStr ''Mario86''), (''field2'', PInt 17)]]"

definition sim_env :: "nat env" where
  "sim_env =
     \<lparr>srv_create_database = (\<lambda>tr n. if sim_db_exists (rev tr) then Inl conflict else Inr []),
      srv_list_containers =
        (\<lambda>tr. Inr (if container_present tr container_name
                    then [[(''id'', PStr container_name)]] else [], [])),
      srv_delete_container =
        (\<lambda>tr n. if container_present tr n then Inr []
                 else Inl (CosmosHttpResponseError (Some 404))),
      srv_create_container =
        (\<lambda>tr n pk. if container_present tr n then Inl conflict else Inr []),
      srv_urlopen_json = (\<lambda>tr url. Inr sim_docs),
      srv_create_item = (\<lambda>tr doc. Inr [(''x-ms-request-charge'', ''6.1'')]),
      srv_query_items =
        (\<lambda>tr q x. Inr [(filter (sim_matches q) (created_items tr),
                         [(''x-ms-request-charge'', ''2.83'')])]),
      srv_replace_container = (\<lambda>tr n pk pol. Inr []),
      srv_read_container =
        (\<lambda>tr q. Inr [(''x-ms-documentdb-collection-index-transformation-progress'',
                        if 2 \<le> sim_sleeps_since_replace (rev tr) then ''100'' else ''60'')]),
      srv_delete_database = (\<lambda>tr n. Inr []),
      wall_clock = length,
      fmt_elapsed_ms = (\<lambda>t0 t1. str_nat ((t1 - t0) * 1000))\<rparr>"

text \<open>The same service with an index transformation that stays at 60 percent.\<close>

definition stuck_env :: "nat env" where
  "stuck_env = sim_env\<lparr>srv_read_container := (\<lambda>tr q. Inr [(progress_header, ''60'')])\<rparr>"

text \<open>The same service with a database endpoint that is out of order.\<close>

definition down_env :: "nat env" where
  "down_env =
     sim_env\<lparr>srv_create_database := (\<lambda>tr n. Inl (CosmosHttpResponseError (Some 503)))\<rparr>"

text \<open>The same service with reads that fail once the notebook has slept.\<close>

definition broken_read_env :: "nat env" where
  "broken_read_env =
     sim_env\<lparr>srv_read_container :=
       (\<lambda>tr q. if 1 \<le> sim_sleeps_since_replace (rev tr)
                then Inl (OtherError ''ServiceRequestError'')
                else Inr [(progress_header, ''60'')])\<rparr>"

definition init :: "nat state" where
  "init = \<lparr>trace = [], last_response_headers = []\<rparr>"

definition sim_after_setup :: "nat state" where
  "sim_after_setup = snd (cell1 sim_env init)"

definition sim_after_load :: "nat state" where
  "sim_after_load = snd (cell3 sim_env sim_after_setup)"

section \<open>Basic facts\<close>

lemmas prim_defs = then_do_def return_ok_def done_ok_def emit_def record_call_def invoke_def
  print_def print_noend_def sleep_def time_time_def create_database_def list_containers_def
  delete_container_def create_container_def urlopen_json_def create_item_def query_items_def
  replace_container_def read_container_def delete_database_def last_response_header_def

lemmas sim_defs = sim_env_def init_def sim_docs_def conflict_def container_present_def
  container_name_def db_name_def data_url_def

lemma created_items_append: "created_items (xs @ ys) = created_items xs @ created_items ys"
  by (induction xs rule: created_items.induct) auto

lemma attempted_items_append:
  "attempted_items (xs @ ys) = attempted_items xs @ attempted_items ys"
  by (induction xs rule: attempted_items.induct) auto

lemma created_progress_line [simp]: "created_items (progress_line n @ evs) = created_items evs"
  by (simp add: progress_line_def)

lemma attempted_progress_line [simp]:
  "attempted_items (progress_line n @ evs) = attempted_items evs"
  by (simp add: progress_line_def)

section \<open>The bulk load (cell 3)\<close>

text \<open>One turn of the loop: the progress line when it is due, then the insertion; an
  exception of \<^verbatim>\<open>create_item\<close> ends the loop at once.\<close>

lemma insert_docs_step:
  "insert_docs env (doc # docs) n s =
     (let s1 = s\<lparr>trace := trace s @ progress_line n\<rparr> in
      case srv_create_item env (trace s1) doc of
        Inl e \<Rightarrow> (Inl e, record_call (CreateItem doc) (Raised e) s1)
      | Inr h \<Rightarrow> insert_docs env docs (n + 1) (record_call (CreateItem doc) (Returned h) s1))"
  by (simp add: prim_defs progress_line_def Let_def split: sum.splits)

lemma insert_docs_new:
  "insert_docs env docs n s = (r, s') \<Longrightarrow>
     \<exists>new. trace s' = trace s @ new \<and>
       (case r of
          Inr _ \<Rightarrow> attempted_items new = docs \<and> created_items new = docs
        | Inl e \<Rightarrow> (\<exists>k<length docs. created_items new = take k docs \<and>
                     attempted_items new = take (Suc k) docs \<and> new \<noteq> [] \<and>
                     last new = Call (CreateItem (docs ! k)) (Raised e)))"
proof (induction docs arbitrary: n s)
  case Nil
  then show ?case by (auto simp: prim_defs)
next
  case (Cons doc docs)
  define s1 where "s1 = s\<lparr>trace := trace s @ progress_line n\<rparr>"
  show ?case
  proof (cases "srv_create_item env (trace s1) doc")
    case (Inl e)
    from Cons.prems have "(Inl e, record_call (CreateItem doc) (Raised e) s1) = (r, s')"
      unfolding insert_docs_step Let_def s1_def [symmetric] Inl by simp
    then have r: "r = Inl e" and s': "s' = record_call (CreateItem doc) (Raised e) s1"
      by simp_all
    have "trace s' = trace s @ (progress_line n @ [Call (CreateItem doc) (Raised e)])"
      by (simp add: s' s1_def record_call_def)
    moreover have "created_items (progress_line n @ [Call (CreateItem doc) (Raised e)]) = take 0 (doc # docs)"
      by simp
    moreover have "attempted_items (progress_line n @ [Call (CreateItem doc) (Raised e)]) = take (Suc 0) (doc # docs)"
      by simp
    ultimately have "trace s' = trace s @ (progress_line n @ [Call (CreateItem doc) (Raised e)]) \<and>
       (\<exists>k<length (doc # docs).
          created_items (progress_line n @ [Call (CreateItem doc) (Raised e)]) = take k (doc # docs) \<and>
          attempted_items (progress_line n @ [Call (CreateItem doc) (Raised e)]) = take (Suc k) (doc # docs) \<and>
          progress_line n @ [Call (CreateItem doc) (Raised e)] \<noteq> [] \<and>
          last (progress_line n @ [Call (CreateItem doc) (Raised e)]) = Call (CreateItem ((doc # docs) ! k)) (Raised e))"
      by (intro conjI exI [of _ 0]) simp_all
    then show ?thesis unfolding r sum.case by (rule exI)
  next
    case (Inr h)
    define s2 where "s2 = record_call (CreateItem doc) (Returned h) s1"
    from Cons.prems have run: "insert_docs env docs (n + 1) s2 = (r, s')"
      unfolding insert_docs_step Let_def s1_def [symmetric] Inr s2_def by simp
    from Cons.IH [OF run] obtain new where
      tr: "trace s' = trace s2 @ new" and
      rest: "case r of
          Inr _ \<Rightarrow> attempted_items new = docs \<and> created_items new = docs
        | Inl e \<Rightarrow> (\<exists>k<length docs. created_items new = take k docs \<and>
                     attempted_items new = take (Suc k) docs \<and> new \<noteq> [] \<and>
                     last new = Call (CreateItem (docs ! k)) (Raised e))"
      by blast
    let ?new = "progress_line n @ Call (CreateItem doc) (Returned h) # new"
    have tr': "trace s' = trace s @ ?new"
      by (simp add: tr s2_def s1_def record_call_def)
    show ?thesis
    proof (cases r)
      case (Inr u)
      with rest tr' show ?thesis
        by (intro exI [of _ ?new]) simp
    next
      case (Inl e)
      with rest obtain k where k: "k < length docs" "created_items new = take k docs"
        "attempted_items new = take (Suc k) docs" "new \<noteq> []"
        "last new = Call (CreateItem (docs ! k)) (Raised e)"
        by auto
      have "Suc k < length (doc # docs)" using k(1) by simp
      moreover have "created_items ?new = take (Suc k) (doc # docs)" using k(2) by simp
      moreover have "attempted_items ?new = take (Suc (Suc k)) (doc # docs)" using k(3) by simp
      moreover have "last ?new = Call (CreateItem ((doc # docs) ! Suc k)) (Raised e)"
        using k(4,5) by simp
      ultimately have "trace s' = trace s @ ?new \<and>
        (\<exists>k<length (doc # docs). created_items ?new = take k (doc # docs) \<and>
           attempted_items ?new = take (Suc k) (doc # docs) \<and> ?new \<noteq> [] \<and>
           last ?new = Call (CreateItem ((doc # docs) ! k)) (Raised e))"
        using tr' by (intro conjI exI [of _ "Suc k"]) simp_all
      then show ?thesis unfolding Inl sum.case by (rule exI)
    qed
  qed
qed



text \<open>
  C3. Once the JSON array \<open>docs\<close> has been fetched, the events of the load are the calls
  of \<^verbatim>\<open>create_item\<close>, one for each record and in the order of the array (with the progress
  lines in between). If the cell ends without an exception, every record was inserted
  exactly once, so as many documents were created as records were fetched. If it ends with
  an exception \<open>e\<close>, that is the exception of the first failing insertion: the records
  before it were created, it is the last event, and no later record was attempted.
\<close>

theorem cell3_inserts_each_record_once:
  assumes "srv_urlopen_json env (trace s) data_url = Inr docs"
      and "cell3 env s = (r, s')"
  shows "\<exists>new. trace s' = trace s @ Call (UrlopenJson data_url) (ReturnedJson docs) # new \<and>
           (case r of
              Inr _ \<Rightarrow> attempted_items new = docs \<and> created_items new = docs \<and>
                       length (created_items new) = length docs
            | Inl e \<Rightarrow> (\<exists>k<length docs. created_items new = take k docs \<and>
                         attempted_items new = take (Suc k) docs \<and> new \<noteq> [] \<and>
                         last new = Call (CreateItem (docs ! k)) (Raised e)))"
proof -
  define s1 where "s1 = record_call (UrlopenJson data_url) (ReturnedJson docs) s"
  from assms have run: "insert_docs env docs 1 s1 = (r, s')"
    by (simp add: cell3_def then_do_def urlopen_json_def invoke_def s1_def)
  from insert_docs_new [OF run] obtain new where
    tr: "trace s' = trace s1 @ new" and
    rest: "case r of
          Inr _ \<Rightarrow> attempted_items new = docs \<and> created_items new = docs
        | Inl e \<Rightarrow> (\<exists>k<length docs. created_items new = take k docs \<and>
                     attempted_items new = take (Suc k) docs \<and> new \<noteq> [] \<and>
                     last new = Call (CreateItem (docs ! k)) (Raised e))"
    by blast
  have "trace s' = trace s @ Call (UrlopenJson data_url) (ReturnedJson docs) # new"
    by (simp add: tr s1_def record_call_def)
  moreover from rest have "case r of
              Inr _ \<Rightarrow> attempted_items new = docs \<and> created_items new = docs \<and>
                       length (created_items new) = length docs
            | Inl e \<Rightarrow> (\<exists>k<length docs. created_items new = take k docs \<and>
                         attempted_items new = take (Suc k) docs \<and> new \<noteq> [] \<and>
                         last new = Call (CreateItem (docs ! k)) (Raised e))"
    by (cases r) simp_all
  ultimately show ?thesis by blast
qed

text \<open>The load of three records against the simulated service.\<close>

lemma cell3_sim:
  "cell3 sim_env init =
     (Inr (),
      \<lparr>trace = [Call (UrlopenJson data_url) (ReturnedJson sim_docs),
                Call (CreateItem (sim_docs ! 0)) (Returned [(''x-ms-request-charge'', ''6.1'')]),
                Call (CreateItem (sim_docs ! 1)) (Returned [(''x-ms-request-charge'', ''6.1'')]),
                Call (CreateItem (sim_docs ! 2)) (Returned [(''x-ms-request-charge'', ''6.1'')])],
       last_response_headers = [(''x-ms-request-charge'', ''6.1'')]\<rparr>)"
  by (simp add: cell3_def sim_env_def init_def sim_docs_def prim_defs)

theorem cell3_inserts_each_record_once_witness:
  "fst (cell3 sim_env init) = Inr () \<and>
   (\<exists>new. trace (snd (cell3 sim_env init)) =
            trace init @ Call (UrlopenJson data_url) (ReturnedJson sim_docs) # new \<and>
          attempted_items new = sim_docs \<and> created_items new = sim_docs \<and>
          length (created_items new) = length sim_docs)"
proof -
  have fetch: "srv_urlopen_json sim_env (trace init) data_url = Inr sim_docs"
    by (simp add: sim_env_def)
  have run: "cell3 sim_env init = (Inr (), snd (cell3 sim_env init))"
    by (simp add: cell3_sim)
  have ok: "fst (cell3 sim_env init) = Inr ()"
    by (simp add: cell3_sim)
  from cell3_inserts_each_record_once [OF fetch run] ok show ?thesis
    by simp
qed

section \<open>The set-up (cell 1)\<close>

lemma cell1_try_cases:
  "cell1_try env s =
     (case srv_create_database env (trace s) db_name of
        Inr h \<Rightarrow>
          (Inr (),
           \<lparr>trace = trace s @ [Call (CreateDatabase db_name) (Returned h),
                               Print (''Database created'' @ [CHR 0x0A]), Sleep 2],
            last_response_headers = h\<rparr>)
      | Inl e \<Rightarrow>
          if e = conflict
          then (Inr (),
                \<lparr>trace = trace s @ [Call (CreateDatabase db_name) (Raised e),
                                    Print (''Database already exists'' @ [CHR 0x0A])],
                 last_response_headers = last_response_headers s\<rparr>)
          else (Inl e,
                \<lparr>trace = trace s @ [Call (CreateDatabase db_name) (Raised e)],
                 last_response_headers = last_response_headers s\<rparr>))"
  by (simp add: cell1_try_def prim_defs conflict_def split: sum.splits exn.splits)

lemma any_id_is_well_formed:
  "list_all (\<lambda>d. map_of d ''id'' \<noteq> None) ds \<Longrightarrow>
     any_id_is name ds = Inr (list_ex (\<lambda>d. map_of d ''id'' = Some (PStr name)) ds)"
  by (induction ds) auto

lemma any_id_is_found:
  "any_id_is name ds = Inr b \<Longrightarrow> b = list_ex (\<lambda>d. map_of d ''id'' = Some (PStr name)) ds"
  by (induction ds) (auto split: option.splits if_splits)

lemma any_id_is_error: "any_id_is name ds = Inl e \<Longrightarrow> e = KeyError ''id''"
  by (induction ds) (auto split: option.splits if_splits)

text \<open>The second half of the cell, from the listing on.\<close>

lemma cell1_reset_ok:
  assumes "cell1_reset env s = (Inr (), s')"
  shows "\<exists>ds h hc.
           (list_ex (\<lambda>d. map_of d ''id'' = Some (PStr container_name)) ds \<and>
            (\<exists>hdel. trace s' =
                    trace s @ [Call ListContainers (ReturnedDicts ds h)] @ dropped hdel @ created hc)) \<or>
           (\<not> list_ex (\<lambda>d. map_of d ''id'' = Some (PStr container_name)) ds \<and>
            trace s' = trace s @ [Call ListContainers (ReturnedDicts ds h)] @ created hc)"
  using assms
  by (auto simp: cell1_reset_def prim_defs created_def dropped_def
           split: sum.splits prod.splits if_splits dest!: any_id_is_found)


lemma cell1_split:
  "cell1 env s = (Inr (), s') \<Longrightarrow>
     \<exists>s1. cell1_try env s = (Inr (), s1) \<and> cell1_reset env s1 = (Inr (), s')"
  by (auto simp: cell1_def then_do_def split: prod.splits sum.splits)

lemma cell1_try_extends: "cell1_try env s = (r, s1) \<Longrightarrow> \<exists>pre. trace s1 = trace s @ pre"
  by (auto simp: cell1_try_cases split: sum.splits if_splits)

lemma container_docs_created [simp]: "container_docs (tr @ created h) = Some []"
  by (simp add: container_docs_def created_def)

text \<open>
  C10. When the set-up ends without an exception, its events end with the listing, then,
  if and only if the listing has an entry whose \<^verbatim>\<open>id\<close> is the container's name, the
  successful deletion of that container and its message, and last the successful creation
  of the container and its message. So the container is deleted before it is created anew
  whenever it was there, and whatever the trace held before (a load of an earlier run, for
  one), the client has put no document into the container it ends with.
\<close>

theorem cell1_recreates_container:
  assumes "cell1 env s = (Inr (), s')"
  shows "\<exists>pre ds h mid hc.
           trace s' = trace s @ pre @ [Call ListContainers (ReturnedDicts ds h)] @ mid @ created hc \<and>
           (if list_ex (\<lambda>d. map_of d ''id'' = Some (PStr container_name)) ds
            then \<exists>hdel. mid = dropped hdel else mid = []) \<and>
           container_docs (trace s') = Some []"
proof -
  from cell1_split [OF assms] obtain s1 where
    tried: "cell1_try env s = (Inr (), s1)" and reset: "cell1_reset env s1 = (Inr (), s')"
    by blast
  from cell1_try_extends [OF tried] obtain pre where pre: "trace s1 = trace s @ pre"
    by blast
  from cell1_reset_ok [OF reset] obtain ds h hc where
    cases: "(list_ex (\<lambda>d. map_of d ''id'' = Some (PStr container_name)) ds \<and>
            (\<exists>hdel. trace s' =
                    trace s1 @ [Call ListContainers (ReturnedDicts ds h)] @ dropped hdel @ created hc)) \<or>
           (\<not> list_ex (\<lambda>d. map_of d ''id'' = Some (PStr container_name)) ds \<and>
            trace s' = trace s1 @ [Call ListContainers (ReturnedDicts ds h)] @ created hc)"
    by blast
  then show ?thesis
  proof
    assume "list_ex (\<lambda>d. map_of d ''id'' = Some (PStr container_name)) ds \<and>
            (\<exists>hdel. trace s' =
                    trace s1 @ [Call ListContainers (ReturnedDicts ds h)] @ dropped hdel @ created hc)"
    then obtain hdel where
      listed: "list_ex (\<lambda>d. map_of d ''id'' = Some (PStr container_name)) ds" and
      tr: "trace s' = trace s1 @ [Call ListContainers (ReturnedDicts ds h)] @ dropped hdel @ created hc"
      by blast
    have "trace s' = trace s @ pre @ [Call ListContainers (ReturnedDicts ds h)] @ dropped hdel @ created hc"
      by (simp add: tr pre)
    moreover have "container_docs (trace s') = Some []"
      unfolding tr append_assoc [symmetric] by (rule container_docs_created)
    ultimately show ?thesis using listed
      by (intro exI [of _ pre] exI [of _ ds] exI [of _ h] exI [of _ "dropped hdel"] exI [of _ hc]) auto
  next
    assume "\<not> list_ex (\<lambda>d. map_of d ''id'' = Some (PStr container_name)) ds \<and>
            trace s' = trace s1 @ [Call ListContainers (ReturnedDicts ds h)] @ created hc"
    then have
      unlisted: "\<not> list_ex (\<lambda>d. map_of d ''id'' = Some (PStr container_name)) ds" and
      tr: "trace s' = trace s1 @ [Call ListContainers (ReturnedDicts ds h)] @ created hc"
      by blast+
    have "trace s' = trace s @ pre @ [Call ListContainers (ReturnedDicts ds h)] @ [] @ created hc"
      by (simp add: tr pre)
    moreover have "container_docs (trace s') = Some []"
      unfolding tr append_assoc [symmetric] by (rule container_docs_created)
    ultimately show ?thesis using unlisted
      by (intro exI [of _ pre] exI [of _ ds] exI [of _ h] exI [of _ "[]"] exI [of _ hc]) auto
  qed
qed


text \<open>The simulated service: a first set-up, a load, and a second set-up.\<close>

lemma sim_after_setup_eq:
  "cell1 sim_env init = (Inr (), sim_after_setup) \<and>
   sim_after_setup =
     \<lparr>trace = [Call (CreateDatabase db_name) (Returned []),
               Print (''Database created'' @ [CHR 0x0A]), Sleep 2,
               Call ListContainers (ReturnedDicts [] [])] @ created [],
      last_response_headers = []\<rparr>"
  by (simp add: sim_after_setup_def cell1_def cell1_try_def cell1_reset_def prim_defs sim_defs
        created_def)

lemma sim_after_load_eq:
  "cell3 sim_env sim_after_setup = (Inr (), sim_after_load) \<and>
   sim_after_load =
     \<lparr>trace = trace sim_after_setup @
               [Call (UrlopenJson data_url) (ReturnedJson sim_docs),
                Call (CreateItem (sim_docs ! 0)) (Returned [(''x-ms-request-charge'', ''6.1'')]),
                Call (CreateItem (sim_docs ! 1)) (Returned [(''x-ms-request-charge'', ''6.1'')]),
                Call (CreateItem (sim_docs ! 2)) (Returned [(''x-ms-request-charge'', ''6.1'')])],
      last_response_headers = [(''x-ms-request-charge'', ''6.1'')]\<rparr>"
  by (simp add: sim_after_load_def sim_after_setup_eq cell3_def prim_defs sim_defs created_def)

lemma sim_second_setup:
  "cell1 sim_env sim_after_load =
     (Inr (),
      \<lparr>trace = trace sim_after_load @
                [Call (CreateDatabase db_name) (Raised conflict),
                 Print (''Database already exists'' @ [CHR 0x0A]),
                 Call ListContainers (ReturnedDicts [[(''id'', PStr container_name)]] [])] @
                dropped [] @ created [],
       last_response_headers = []\<rparr>)"
  by (simp add: sim_after_load_eq sim_after_setup_eq
        cell1_def cell1_try_def cell1_reset_def prim_defs sim_defs created_def dropped_def)

theorem cell1_recreates_container_witness:
  "container_docs (trace sim_after_load) = Some sim_docs \<and>
   (\<exists>pre ds h mid hc.
      trace (snd (cell1 sim_env sim_after_load)) =
        trace sim_after_load @ pre @ [Call ListContainers (ReturnedDicts ds h)] @ mid @ created hc \<and>
      (if list_ex (\<lambda>d. map_of d ''id'' = Some (PStr container_name)) ds
       then \<exists>hdel. mid = dropped hdel else mid = []) \<and>
      container_docs (trace (snd (cell1 sim_env sim_after_load))) = Some [])"
proof -
  have before: "container_docs (trace sim_after_load) = Some sim_docs"
    by (simp add: sim_after_load_eq sim_after_setup_eq
          container_docs_def created_def container_name_def sim_docs_def)
  have run: "cell1 sim_env sim_after_load = (Inr (), snd (cell1 sim_env sim_after_load))"
    by (simp add: sim_second_setup)
  from before cell1_recreates_container [OF run] show ?thesis
    by (rule conjI)
qed


section \<open>Running the set-up again\<close>

lemma present_after_listing [simp]:
  "container_present (tr @ [Call ListContainers (ReturnedDicts ds h)]) name =
     list_ex (\<lambda>d. map_of d ''id'' = Some (PStr name)) ds"
  by (simp add: container_present_def)

lemma absent_after_dropped [simp]:
  "\<not> container_present (tr @ dropped h) container_name"
  by (simp add: container_present_def dropped_def)

lemma create_container_ok:
  assumes "srv_create_container env (trace s) container_name ''/id'' = Inr hc"
  shows "then_do (create_container env container_name ''/id'') (\<lambda>_. print ''Container created'') s =
           (Inr (), \<lparr>trace = trace s @ created hc, last_response_headers = hc\<rparr>)"
  using assms by (simp add: prim_defs created_def)

lemma delete_container_ok:
  assumes "srv_delete_container env (trace s) container_name = Inr hdel"
  shows "then_do (delete_container env container_name) (\<lambda>_. print ''Container dropped'') s =
           (Inr (), \<lparr>trace = trace s @ dropped hdel, last_response_headers = hdel\<rparr>)"
  using assms by (simp add: prim_defs dropped_def)

lemma then_do_Inr: "m s = (Inr a, s') \<Longrightarrow> then_do m f s = f a s'"
  by (simp add: then_do_def)

lemma then_do_Inl: "m s = (Inl e, s') \<Longrightarrow> then_do m f s = (Inl e, s')"
  by (simp add: then_do_def)

lemma then_do_Pair [simp]: "then_do (Pair (Inr a)) f s = f a s"
  by (simp add: then_do_def)

lemma then_do_done_ok [simp]: "then_do done_ok f s = f () s"
  by (simp add: then_do_def done_ok_def return_ok_def)

lemma cell1_reset_succeeds:
  assumes "fails_on_conflict_only env"
  shows "\<exists>s'. cell1_reset env s = (Inr (), s')"
proof -
  from assms have "case srv_list_containers env (trace s) of
             Inr (ds, h) \<Rightarrow> list_all (\<lambda>d. map_of d ''id'' \<noteq> None) ds
           | Inl e \<Rightarrow> False"
    unfolding fails_on_conflict_only_def by blast
  then obtain ds h where
    listing: "srv_list_containers env (trace s) = Inr (ds, h)" and
    wf: "list_all (\<lambda>d. map_of d ''id'' \<noteq> None) ds"
    by (cases "srv_list_containers env (trace s)") (auto simp del: not_None_eq)
  define s1 where "s1 = record_call ListContainers (ReturnedDicts ds h) s"
  let ?found = "list_ex (\<lambda>d. map_of d ''id'' = Some (PStr container_name)) ds"
  have tr1: "trace s1 = trace s @ [Call ListContainers (ReturnedDicts ds h)]"
    by (simp add: s1_def record_call_def)
  have unfold: "cell1_reset env s =
      then_do (if ?found
               then then_do (delete_container env container_name) (\<lambda>_. print ''Container dropped'')
               else done_ok)
        (\<lambda>_. then_do (create_container env container_name ''/id'') (\<lambda>_. print ''Container created'')) s1"
  proof -
    have "list_containers env s = (Inr (ds, h), s1)"
      by (simp add: list_containers_def invoke_def listing s1_def)
    then show ?thesis
      by (simp add: cell1_reset_def then_do_Inr any_id_is_well_formed [OF wf])
  qed
  show ?thesis
  proof (cases ?found)
    case True
    then have "container_present (trace s1) container_name" by (simp add: tr1)
    with assms obtain hdel where del: "srv_delete_container env (trace s1) container_name = Inr hdel"
      unfolding fails_on_conflict_only_def by blast
    define s2 :: "'a state" where "s2 = \<lparr>trace = trace s1 @ dropped hdel, last_response_headers = hdel\<rparr>"
    have "\<not> container_present (trace s2) container_name" by (simp add: s2_def)
    with assms obtain hc where cr: "srv_create_container env (trace s2) container_name ''/id'' = Inr hc"
      unfolding fails_on_conflict_only_def by blast
    show ?thesis
      unfolding unfold using True
      by (simp add: then_do_Inr [where m = "then_do _ _", OF delete_container_ok [OF del]]
            s2_def [symmetric] create_container_ok [OF cr])
  next
    case False
    then have "\<not> container_present (trace s1) container_name" by (simp add: tr1)
    with assms obtain hc where cr: "srv_create_container env (trace s1) container_name ''/id'' = Inr hc"
      unfolding fails_on_conflict_only_def by blast
    show ?thesis
      unfolding unfold using False
      by (simp add: create_container_ok [OF cr])
  qed
qed

lemma cell1_try_succeeds:
  assumes "fails_on_conflict_only env"
  shows "\<exists>s'. cell1_try env s = (Inr (), s')"
proof -
  from assms have "case srv_create_database env (trace s) db_name of
      Inr h \<Rightarrow> True | Inl e \<Rightarrow> e = conflict"
    unfolding fails_on_conflict_only_def by blast
  then show ?thesis
    by (simp add: cell1_try_cases split: sum.splits)
qed

text \<open>
  C6. On a service where the set-up's calls fail only because something exists already or
  is missing, a set-up that follows a successful set-up ends without an exception: a
  conflict on the database is caught, and a container that is listed is deleted before it
  is created.
\<close>

theorem cell1_twice:
  assumes "fails_on_conflict_only env" and "cell1 env s = (Inr (), s1)"
  shows "\<exists>s2. cell1 env s1 = (Inr (), s2)"
proof -
  from cell1_try_succeeds [OF assms(1)] obtain sa where a: "cell1_try env s1 = (Inr (), sa)"
    by blast
  from cell1_reset_succeeds [OF assms(1)] obtain sb where b: "cell1_reset env sa = (Inr (), sb)"
    by blast
  from a b have "cell1 env s1 = (Inr (), sb)"
    by (simp add: cell1_def then_do_def)
  then show ?thesis ..
qed

lemma sim_env_fails_on_conflict_only: "fails_on_conflict_only sim_env"
  by (simp add: fails_on_conflict_only_def sim_env_def)

theorem cell1_twice_witness:
  "fails_on_conflict_only sim_env \<and> cell1 sim_env init = (Inr (), sim_after_setup) \<and>
   (\<exists>s2. cell1 sim_env sim_after_setup = (Inr (), s2))"
proof -
  have first: "cell1 sim_env init = (Inr (), sim_after_setup)"
    by (simp add: sim_after_setup_eq)
  from sim_env_fails_on_conflict_only first
    cell1_twice [OF sim_env_fails_on_conflict_only first]
  show ?thesis by simp
qed

section \<open>Query and measure (cells 5, 9, 13 and 15)\<close>

lemma query_and_measure_cases:
  "query_and_measure env q s =
     (let t0 = wall_clock env (trace s);
          tr1 = trace s @ [Clock t0]
      in case srv_query_items env tr1 q True of
           Inl e \<Rightarrow>
             (Inl e,
              \<lparr>trace = tr1 @ [Call (QueryItems q True) (Raised e)],
               last_response_headers = last_response_headers s\<rparr>)
         | Inr pages \<Rightarrow>
             (let tr2 = tr1 @ [Call (QueryItems q True) (ReturnedPages pages)];
                  t1 = wall_clock env tr2;
                  hdrs = (if pages = [] then last_response_headers s else snd (last pages));
                  tr3 = tr2 @
                    [Clock t1,
                     Print (''Got '' @ str_nat (length (concat (map fst pages))) @ '' result(s)''
                            @ [CHR 0x0A]),
                     Print (''Time elapsed: '' @ fmt_elapsed_ms env t0 t1 @ '' ms'' @ [CHR 0x0A])]
              in case map_of hdrs ''x-ms-request-charge'' of
                   None \<Rightarrow>
                     (Inl (KeyError ''x-ms-request-charge''),
                      \<lparr>trace = tr3, last_response_headers = hdrs\<rparr>)
                 | Some charge \<Rightarrow>
                     (Inr (),
                      \<lparr>trace = tr3 @ [Print (''Request charge: '' @ charge @ '' RUs'' @ [CHR 0x0A])],
                       last_response_headers = hdrs\<rparr>)))"
  by (simp add: query_and_measure_def prim_defs Let_def split: sum.splits option.splits)

text \<open>
  C9. Each of the four query cells reads the clock, sends its query with
  \<^verbatim>\<open>enable_cross_partition_query=True\<close>, and reads the clock again only after all pages of
  the result have arrived. If the query raises, the exception leaves the cell. Otherwise the
  cell prints three lines: the number of results over all pages, the elapsed time between
  the two clock readings, and the \<^verbatim>\<open>x-ms-request-charge\<close> header of the last response, which
  is that of the last page alone (a missing header raises \<^verbatim>\<open>KeyError\<close> after the first two
  lines).
\<close>

theorem query_cells_measure:
  assumes "(cell = cell5 env \<or> cell = cell9 env \<or> cell = cell13 env) \<and> q = query_field1 \<or>
           cell = cell15 env \<and> q = query_field2"
  shows "cell s =
     (let t0 = wall_clock env (trace s);
          tr1 = trace s @ [Clock t0]
      in case srv_query_items env tr1 q True of
           Inl e \<Rightarrow>
             (Inl e,
              \<lparr>trace = tr1 @ [Call (QueryItems q True) (Raised e)],
               last_response_headers = last_response_headers s\<rparr>)
         | Inr pages \<Rightarrow>
             (let tr2 = tr1 @ [Call (QueryItems q True) (ReturnedPages pages)];
                  t1 = wall_clock env tr2;
                  hdrs = (if pages = [] then last_response_headers s else snd (last pages));
                  tr3 = tr2 @
                    [Clock t1,
                     Print (''Got '' @ str_nat (length (concat (map fst pages))) @ '' result(s)''
                            @ [CHR 0x0A]),
                     Print (''Time elapsed: '' @ fmt_elapsed_ms env t0 t1 @ '' ms'' @ [CHR 0x0A])]
              in case map_of hdrs ''x-ms-request-charge'' of
                   None \<Rightarrow>
                     (Inl (KeyError ''x-ms-request-charge''),
                      \<lparr>trace = tr3, last_response_headers = hdrs\<rparr>)
                 | Some charge \<Rightarrow>
                     (Inr (),
                      \<lparr>trace = tr3 @ [Print (''Request charge: '' @ charge @ '' RUs'' @ [CHR 0x0A])],
                       last_response_headers = hdrs\<rparr>)))"
proof -
  from assms have "cell = query_and_measure env q"
    by (auto simp: cell5_def cell9_def cell13_def cell15_def)
  then show ?thesis
    by (simp only: query_and_measure_cases)
qed


theorem query_cells_measure_witness:
  "cell5 sim_env sim_after_load =
     (Inr (),
      \<lparr>trace = trace sim_after_load @
         [Clock 10,
          Call (QueryItems query_field1 True)
            (ReturnedPages [([sim_docs ! 0, sim_docs ! 2], [(''x-ms-request-charge'', ''2.83'')])]),
          Clock 12,
          Print (''Got 2 result(s)'' @ [CHR 0x0A]),
          Print (''Time elapsed: 2000 ms'' @ [CHR 0x0A]),
          Print (''Request charge: 2.83 RUs'' @ [CHR 0x0A])],
       last_response_headers = [(''x-ms-request-charge'', ''2.83'')]\<rparr>)"
proof -
  have which: "(cell5 sim_env = cell5 sim_env \<or> cell5 sim_env = cell9 sim_env \<or>
                cell5 sim_env = cell13 sim_env) \<and> query_field1 = query_field1 \<or>
               cell5 sim_env = cell15 sim_env \<and> query_field1 = query_field2"
    by simp
  show ?thesis
    unfolding query_cells_measure [of "cell5 sim_env" sim_env query_field1 sim_after_load, OF which]
    by (simp add: sim_after_load_eq sim_after_setup_eq sim_defs created_def sim_matches_def
          query_field1_def str_nat.simps digit_char_def Let_def)
qed

section \<open>Waiting for the index (cell 11)\<close>

text \<open>One reading of the progress, and one turn of the loop (sleep, then read).\<close>

lemma read_progress_cases:
  "read_progress env s =
     (case srv_read_container env (trace s) True of
        Inl e \<Rightarrow>
          (Inl e,
           \<lparr>trace = trace s @ [Call (ReadContainer True) (Raised e)],
            last_response_headers = last_response_headers s\<rparr>)
      | Inr h \<Rightarrow>
          (case map_of h progress_header of
             None \<Rightarrow>
               (Inl (KeyError progress_header),
                \<lparr>trace = trace s @ [Call (ReadContainer True) (Returned h)],
                 last_response_headers = h\<rparr>)
           | Some p \<Rightarrow>
               (Inr p,
                \<lparr>trace = trace s @ [Call (ReadContainer True) (Returned h), Print (progress_msg p)],
                 last_response_headers = h\<rparr>)))"
  by (simp add: read_progress_def prim_defs progress_msg_def split: sum.splits option.splits)

lemma turn_cases:
  "then_do (sleep 5) (\<lambda>_. read_progress env) s =
     (case srv_read_container env (trace s @ [Sleep 5]) True of
        Inl e \<Rightarrow>
          (Inl e,
           \<lparr>trace = trace s @ [Sleep 5, Call (ReadContainer True) (Raised e)],
            last_response_headers = last_response_headers s\<rparr>)
      | Inr h \<Rightarrow>
          (case map_of h progress_header of
             None \<Rightarrow>
               (Inl (KeyError progress_header),
                \<lparr>trace = trace s @ [Sleep 5, Call (ReadContainer True) (Returned h)],
                 last_response_headers = h\<rparr>)
           | Some p \<Rightarrow>
               (Inr p,
                \<lparr>trace = trace s @
                   [Sleep 5, Call (ReadContainer True) (Returned h), Print (progress_msg p)],
                 last_response_headers = h\<rparr>)))"
  by (simp add: read_progress_cases then_do_def sleep_def emit_def split: sum.splits option.splits)

text \<open>Induction over the unfoldings of the loop: what holds when it returns.\<close>

lemma wait_for_index_waited:
  assumes "wait_for_index env p s = Some rs"
  shows "fst rs = Inr () \<longrightarrow> (\<exists>new. trace (snd rs) = trace s @ new \<and> waited p new)"
proof (rule wait_for_index.raw_induct
    [where P = "\<lambda>env p s rs. fst rs = Inr () \<longrightarrow>
                  (\<exists>new. trace (snd rs) = trace s @ new \<and> waited p new)", OF _ assms])
  fix wait :: "'a env \<Rightarrow> string \<Rightarrow> 'a state \<Rightarrow> ((exn + unit) \<times> 'a state) option"
  fix env p s rs
  assume IH: "\<And>env p s rs. wait env p s = Some rs \<Longrightarrow>
          fst rs = Inr () \<longrightarrow> (\<exists>new. trace (snd rs) = trace s @ new \<and> waited p new)"
  assume body: "(if p \<noteq> ''100''
      then case then_do (sleep 5) (\<lambda>_. read_progress env) s of
           (Inl e, s') \<Rightarrow> Some (Inl e, s')
           | (Inr p, s') \<Rightarrow> wait env p s'
      else Some (Inr (), s)) = Some rs"
  show "fst rs = Inr () \<longrightarrow> (\<exists>new. trace (snd rs) = trace s @ new \<and> waited p new)"
  proof (cases "p = ''100''")
    case True
    with body show ?thesis by auto
  next
    case False
    show ?thesis
    proof
      assume ok: "fst rs = Inr ()"
      from body False ok obtain h p' where
        h: "srv_read_container env (trace s @ [Sleep 5]) True = Inr h" and
        p': "map_of h progress_header = Some p'" and
        rec: "wait env p'
               \<lparr>trace = trace s @
                   [Sleep 5, Call (ReadContainer True) (Returned h), Print (progress_msg p')],
                last_response_headers = h\<rparr> = Some rs"
        by (auto simp: turn_cases split: sum.splits option.splits)
      from IH [OF rec] ok obtain new where
        new: "trace (snd rs) = trace s @
                   [Sleep 5, Call (ReadContainer True) (Returned h), Print (progress_msg p')] @ new"
          "waited p' new"
        by auto
      let ?new = "Sleep 5 # Call (ReadContainer True) (Returned h) # Print (progress_msg p') # new"
      have "trace (snd rs) = trace s @ ?new" using new(1) by simp
      moreover have "waited p ?new" using False p' new(2) by simp
      ultimately show "\<exists>new. trace (snd rs) = trace s @ new \<and> waited p new" by blast
    qed
  qed
qed

lemma wait_for_index_never:
  assumes "wait_for_index env p s = Some rs"
  shows "never_complete env \<longrightarrow> p = ''100''"
proof (rule wait_for_index.raw_induct
    [where P = "\<lambda>env p s rs. never_complete env \<longrightarrow> p = ''100''", OF _ assms])
  fix wait :: "'a env \<Rightarrow> string \<Rightarrow> 'a state \<Rightarrow> ((exn + unit) \<times> 'a state) option"
  fix env p s rs
  assume IH: "\<And>env p s rs. wait env p s = Some rs \<Longrightarrow> never_complete env \<longrightarrow> p = ''100''"
  assume body: "(if p \<noteq> ''100''
      then case then_do (sleep 5) (\<lambda>_. read_progress env) s of
           (Inl e, s') \<Rightarrow> Some (Inl e, s')
           | (Inr p, s') \<Rightarrow> wait env p s'
      else Some (Inr (), s)) = Some rs"
  show "never_complete env \<longrightarrow> p = ''100''"
  proof (intro impI, rule ccontr)
    assume never: "never_complete env" and not100: "p \<noteq> ''100''"
    from never have "case srv_read_container env (trace s @ [Sleep 5]) True of
             Inl e \<Rightarrow> False
           | Inr h \<Rightarrow> (case map_of h progress_header of
                        None \<Rightarrow> False
                      | Some p \<Rightarrow> p \<noteq> ''100'')"
      unfolding never_complete_def by blast
    then obtain h p' where
      h: "srv_read_container env (trace s @ [Sleep 5]) True = Inr h" and
      p': "map_of h progress_header = Some p'" and ne: "p' \<noteq> ''100''"
      by (auto split: sum.splits option.splits)
    from body not100 h p' have
      rec: "wait env p'
               \<lparr>trace = trace s @
                   [Sleep 5, Call (ReadContainer True) (Returned h), Print (progress_msg p')],
                last_response_headers = h\<rparr> = Some rs"
      by (simp add: turn_cases)
    from IH [OF rec] never ne show False by simp
  qed
qed


lemma cell11_start_cases:
  "then_do (replace_container env container_name ''/id'' policy_exclude_field2)
     (\<lambda>_. then_do (print ''Indexing policy updated'') (\<lambda>_. read_progress env)) s =
     (case srv_replace_container env (trace s) container_name ''/id'' policy_exclude_field2 of
        Inl e \<Rightarrow>
          (Inl e,
           \<lparr>trace = trace s @
              [Call (ReplaceContainer container_name ''/id'' policy_exclude_field2) (Raised e)],
            last_response_headers = last_response_headers s\<rparr>)
      | Inr h0 \<Rightarrow>
          read_progress env
            \<lparr>trace = trace s @
               [Call (ReplaceContainer container_name ''/id'' policy_exclude_field2) (Returned h0),
                Print (''Indexing policy updated'' @ [CHR 0x0A])],
             last_response_headers = h0\<rparr>)"
  by (simp add: prim_defs split: sum.splits)

lemma cell11_ok:
  assumes "cell11 env s = Some (Inr (), s')"
  shows "\<exists>h0 h p new.
           trace s' = trace s @
             [Call (ReplaceContainer container_name ''/id'' policy_exclude_field2) (Returned h0),
              Print (''Indexing policy updated'' @ [CHR 0x0A]),
              Call (ReadContainer True) (Returned h), Print (progress_msg p)] @ new @
             [Print ([CHR 0x0A] @ ''Index transformation completed'' @ [CHR 0x0A])] \<and>
           map_of h progress_header = Some p \<and> waited p new"
proof -
  from assms obtain h0 where
    h0: "srv_replace_container env (trace s) container_name ''/id'' policy_exclude_field2 = Inr h0"
    by (cases "srv_replace_container env (trace s) container_name ''/id'' policy_exclude_field2")
       (simp_all add: cell11_def cell11_start_cases)
  define s0 :: "'a state" where "s0 = \<lparr>trace = trace s @
               [Call (ReplaceContainer container_name ''/id'' policy_exclude_field2) (Returned h0),
                Print (''Indexing policy updated'' @ [CHR 0x0A])],
             last_response_headers = h0\<rparr>"
  from assms h0 have run: "(case read_progress env s0 of
        (Inl e, s1) \<Rightarrow> Some (Inl e, s1)
      | (Inr p, s1) \<Rightarrow>
          (case wait_for_index env p s1 of
             None \<Rightarrow> None
           | Some (Inl e, s2) \<Rightarrow> Some (Inl e, s2)
           | Some (Inr _, s2) \<Rightarrow> Some (print ([CHR 0x0A] @ ''Index transformation completed'') s2))) =
       Some (Inr (), s')"
    by (simp add: cell11_def cell11_start_cases s0_def)
  then obtain h p where
    h: "srv_read_container env (trace s0) True = Inr h" and
    p: "map_of h progress_header = Some p"
    by (auto simp: read_progress_cases split: sum.splits option.splits)
  define s1 :: "'a state" where "s1 = \<lparr>trace = trace s0 @
      [Call (ReadContainer True) (Returned h), Print (progress_msg p)], last_response_headers = h\<rparr>"
  from run h p obtain s2 where
    loop: "wait_for_index env p s1 = Some (Inr (), s2)" and
    s': "s' = snd (print ([CHR 0x0A] @ ''Index transformation completed'') s2)"
    by (auto simp: read_progress_cases s1_def print_def split: option.splits sum.splits)
  from wait_for_index_waited [OF loop] obtain new where
    new: "trace s2 = trace s1 @ new" "waited p new"
    by auto
  have "trace s' = trace s @
             [Call (ReplaceContainer container_name ''/id'' policy_exclude_field2) (Returned h0),
              Print (''Indexing policy updated'' @ [CHR 0x0A]),
              Call (ReadContainer True) (Returned h), Print (progress_msg p)] @ new @
             [Print ([CHR 0x0A] @ ''Index transformation completed'' @ [CHR 0x0A])]"
    by (simp add: s' print_def emit_def new(1) s1_def s0_def)
  with p new(2) show ?thesis by blast
qed


text \<open>One unfolding of the loop when the progress is not \<^verbatim>\<open>'100'\<close>.\<close>

lemma wait_for_index_turn:
  assumes "p \<noteq> ''100''"
  shows "wait_for_index env p s =
     (case srv_read_container env (trace s @ [Sleep 5]) True of
        Inl e \<Rightarrow>
          Some (Inl e,
            \<lparr>trace = trace s @ [Sleep 5, Call (ReadContainer True) (Raised e)],
             last_response_headers = last_response_headers s\<rparr>)
      | Inr h \<Rightarrow>
          (case map_of h progress_header of
             None \<Rightarrow>
               Some (Inl (KeyError progress_header),
                 \<lparr>trace = trace s @ [Sleep 5, Call (ReadContainer True) (Returned h)],
                  last_response_headers = h\<rparr>)
           | Some p' \<Rightarrow>
               wait_for_index env p'
                 \<lparr>trace = trace s @
                    [Sleep 5, Call (ReadContainer True) (Returned h), Print (progress_msg p')],
                  last_response_headers = h\<rparr>))"
  using assms
  by (subst wait_for_index.simps) (simp add: turn_cases split: sum.splits option.splits)

lemma loop_events_waited: "loop_events env tr p evs (Inr ()) \<Longrightarrow> waited p evs"
  by (induction env tr p evs "Inr () :: exn + unit" rule: loop_events.induct)
     (auto split: sum.splits option.splits)

text \<open>From the events the service makes the wait produce to the result of the loop.\<close>

lemma loop_events_wait_for_index:
  "loop_events env tr p evs r \<Longrightarrow> trace s = tr \<Longrightarrow>
     \<exists>s'. wait_for_index env p s = Some (r, s') \<and> trace s' = tr @ evs"
proof (induction env tr p evs r arbitrary: s rule: loop_events.induct)
  case (1 env tr p r)
  then show ?case by (subst wait_for_index.simps) simp
next
  case (2 env tr p n q rep r)
  then show ?case
    by (auto simp: wait_for_index_turn split: sum.splits)
next
  case (3 env tr p n q h msg evs r)
  from "3.prems" obtain p' where
    p: "p \<noteq> ''100''" and
    h: "srv_read_container env (tr @ [Sleep 5]) True = Inr h" and
    p': "map_of h progress_header = Some p'" and
    msg: "msg = progress_msg p'" "n = 5" "q" and
    rest: "loop_events env
             (tr @ [Sleep 5, Call (ReadContainer True) (Returned h), Print (progress_msg p')])
             p' evs r"
    by (auto split: option.splits)
  define s1 :: "'a state" where "s1 = \<lparr>trace = trace s @
      [Sleep 5, Call (ReadContainer True) (Returned h), Print (progress_msg p')],
      last_response_headers = h\<rparr>"
  have tr1: "trace s1 = tr @ [Sleep 5, Call (ReadContainer True) (Returned h), Print (progress_msg p')]"
    by (simp add: s1_def "3.prems"(2))
  from "3.IH" [OF p' rest tr1] obtain s' where
    s': "wait_for_index env p' s1 = Some (r, s')"
        "trace s' = (tr @ [Sleep 5, Call (ReadContainer True) (Returned h), Print (progress_msg p')]) @ evs"
    by blast
  have "wait_for_index env p s = wait_for_index env p' s1"
    using h p' by (simp add: wait_for_index_turn [OF p] "3.prems"(2) s1_def)
  with s' msg show ?case by simp
qed simp_all

text \<open>And back: a loop that returns has produced such events.\<close>

lemma wait_for_index_loop_events:
  assumes "wait_for_index env p s = Some rs"
  shows "\<exists>evs. trace (snd rs) = trace s @ evs \<and> loop_events env (trace s) p evs (fst rs)"
proof (rule wait_for_index.raw_induct
    [where P = "\<lambda>env p s rs. \<exists>evs. trace (snd rs) = trace s @ evs \<and>
                  loop_events env (trace s) p evs (fst rs)", OF _ assms])
  fix wait :: "'a env \<Rightarrow> string \<Rightarrow> 'a state \<Rightarrow> ((exn + unit) \<times> 'a state) option"
  fix env p s rs
  assume IH: "\<And>env p s rs. wait env p s = Some rs \<Longrightarrow>
          \<exists>evs. trace (snd rs) = trace s @ evs \<and> loop_events env (trace s) p evs (fst rs)"
  assume body: "(if p \<noteq> ''100''
      then case then_do (sleep 5) (\<lambda>_. read_progress env) s of
           (Inl e, s') \<Rightarrow> Some (Inl e, s')
           | (Inr p, s') \<Rightarrow> wait env p s'
      else Some (Inr (), s)) = Some rs"
  show "\<exists>evs. trace (snd rs) = trace s @ evs \<and> loop_events env (trace s) p evs (fst rs)"
  proof (cases "p = ''100''")
    case True
    with body have "rs = (Inr (), s)" by simp
    with True show ?thesis by simp
  next
    case False
    show ?thesis
    proof (cases "srv_read_container env (trace s @ [Sleep 5]) True")
      case (Inl e)
      with body False have "rs = (Inl e,
           \<lparr>trace = trace s @ [Sleep 5, Call (ReadContainer True) (Raised e)],
            last_response_headers = last_response_headers s\<rparr>)"
        by (simp add: turn_cases)
      with False Inl show ?thesis
        by (intro exI [of _ "[Sleep 5, Call (ReadContainer True) (Raised e)]"]) simp
    next
      case (Inr h)
      show ?thesis
      proof (cases "map_of h progress_header")
        case None
        with body False Inr have "rs = (Inl (KeyError progress_header),
                \<lparr>trace = trace s @ [Sleep 5, Call (ReadContainer True) (Returned h)],
                 last_response_headers = h\<rparr>)"
          by (simp add: turn_cases)
        with False Inr None show ?thesis
          by (intro exI [of _ "[Sleep 5, Call (ReadContainer True) (Returned h)]"]) simp
      next
        case (Some p')
        with body False Inr have rec: "wait env p'
               \<lparr>trace = trace s @
                   [Sleep 5, Call (ReadContainer True) (Returned h), Print (progress_msg p')],
                last_response_headers = h\<rparr> = Some rs"
          by (simp add: turn_cases)
        from IH [OF rec] obtain evs where
          evs: "trace (snd rs) = trace s @
                   [Sleep 5, Call (ReadContainer True) (Returned h), Print (progress_msg p')] @ evs"
            "loop_events env (trace s @
                   [Sleep 5, Call (ReadContainer True) (Returned h), Print (progress_msg p')])
               p' evs (fst rs)"
          by auto
        let ?evs = "Sleep 5 # Call (ReadContainer True) (Returned h) # Print (progress_msg p') # evs"
        have "trace (snd rs) = trace s @ ?evs" using evs(1) by simp
        moreover have "loop_events env (trace s) p ?evs (fst rs)"
          using False Inr Some evs(2) by simp
        ultimately show ?thesis by blast
      qed
    qed
  qed
qed

text \<open>The loop runs forever exactly when every turn is answered with a progress other
  than \<^verbatim>\<open>'100'\<close>.\<close>

lemma wait_for_index_None_still_waiting:
  "wait_for_index env p s = None \<Longrightarrow> still_waiting env (trace s) p n"
proof (induction n arbitrary: p s)
  case 0
  show ?case
  proof (cases "p = ''100''")
    case True
    then have "wait_for_index env p s = Some (Inr (), s)"
      by (subst wait_for_index.simps) simp
    with 0 show ?thesis by simp
  next
    case False
    then show ?thesis by simp
  qed
next
  case (Suc n)
  have p: "p \<noteq> ''100''"
  proof
    assume "p = ''100''"
    then have "wait_for_index env p s = Some (Inr (), s)"
      by (subst wait_for_index.simps) simp
    with Suc.prems show False by simp
  qed
  from Suc.prems obtain h p' where
    h: "srv_read_container env (trace s @ [Sleep 5]) True = Inr h" and
    p': "map_of h progress_header = Some p'" and
    rec: "wait_for_index env p'
                 \<lparr>trace = trace s @
                    [Sleep 5, Call (ReadContainer True) (Returned h), Print (progress_msg p')],
                  last_response_headers = h\<rparr> = None"
    by (auto simp: wait_for_index_turn [OF p] split: sum.splits option.splits)
  from Suc.IH [OF rec] p h p' show ?case by simp
qed

lemma loop_events_not_still_waiting:
  "loop_events env tr p evs r \<Longrightarrow> \<exists>n. \<not> still_waiting env tr p n"
proof (induction env tr p evs r rule: loop_events.induct)
  case (1 env tr p r)
  then have "\<not> still_waiting env tr p 0" by simp
  then show ?case ..
next
  case (2 env tr p n q rep r)
  then have "\<not> still_waiting env tr p (Suc 0)" by (auto split: sum.splits)
  then show ?case ..
next
  case (3 env tr p n q h msg evs r)
  from "3.prems" obtain p' where
    h: "srv_read_container env (tr @ [Sleep 5]) True = Inr h" and
    p': "map_of h progress_header = Some p'" and
    rest: "loop_events env
             (tr @ [Sleep 5, Call (ReadContainer True) (Returned h), Print (progress_msg p')])
             p' evs r"
    by (auto split: option.splits)
  from "3.IH" [OF p' rest] obtain k where
    "\<not> still_waiting env
         (tr @ [Sleep 5, Call (ReadContainer True) (Returned h), Print (progress_msg p')]) p' k"
    by blast
  with h p' have "\<not> still_waiting env tr p (Suc k)" by simp
  then show ?case ..
qed simp_all

lemma wait_for_index_None_iff:
  "wait_for_index env p s = None \<longleftrightarrow> (\<forall>n. still_waiting env (trace s) p n)"
proof
  assume "wait_for_index env p s = None"
  then show "\<forall>n. still_waiting env (trace s) p n"
    by (blast intro: wait_for_index_None_still_waiting)
next
  assume all: "\<forall>n. still_waiting env (trace s) p n"
  show "wait_for_index env p s = None"
  proof (cases "wait_for_index env p s")
    case None
    then show ?thesis .
  next
    case (Some rs)
    from wait_for_index_loop_events [OF Some] obtain evs where
      "loop_events env (trace s) p evs (fst rs)" by blast
    from loop_events_not_still_waiting [OF this] all show ?thesis by blast
  qed
qed



text \<open>The cell as a whole returns when the service answers its calls this way.\<close>

lemma cell11_returns:
  assumes replace:
      "srv_replace_container env (trace s) container_name ''/id'' policy_exclude_field2 = Inr h0"
    and read: "srv_read_container env
        (trace s @
          [Call (ReplaceContainer container_name ''/id'' policy_exclude_field2) (Returned h0),
           Print (''Indexing policy updated'' @ [CHR 0x0A])]) True = Inr h"
    and p: "map_of h progress_header = Some p"
    and loop: "loop_events env
        (trace s @
          [Call (ReplaceContainer container_name ''/id'' policy_exclude_field2) (Returned h0),
           Print (''Indexing policy updated'' @ [CHR 0x0A]),
           Call (ReadContainer True) (Returned h), Print (progress_msg p)]) p evs r"
  shows "\<exists>s'. cell11 env s = Some (r, s') \<and>
           trace s' = trace s @
             [Call (ReplaceContainer container_name ''/id'' policy_exclude_field2) (Returned h0),
              Print (''Indexing policy updated'' @ [CHR 0x0A]),
              Call (ReadContainer True) (Returned h), Print (progress_msg p)] @ evs @
             (case r of
                Inl e \<Rightarrow> []
              | Inr u \<Rightarrow> [Print ([CHR 0x0A] @ ''Index transformation completed'' @ [CHR 0x0A])])"
proof -
  define s1 :: "'a state" where "s1 = \<lparr>trace = trace s @
          [Call (ReplaceContainer container_name ''/id'' policy_exclude_field2) (Returned h0),
           Print (''Indexing policy updated'' @ [CHR 0x0A]),
           Call (ReadContainer True) (Returned h), Print (progress_msg p)],
        last_response_headers = h\<rparr>"
  have start: "then_do (replace_container env container_name ''/id'' policy_exclude_field2)
     (\<lambda>_. then_do (print ''Indexing policy updated'') (\<lambda>_. read_progress env)) s = (Inr p, s1)"
    using replace read p by (simp add: cell11_start_cases read_progress_cases s1_def)
  have "trace s1 = trace s @
          [Call (ReplaceContainer container_name ''/id'' policy_exclude_field2) (Returned h0),
           Print (''Indexing policy updated'' @ [CHR 0x0A]),
           Call (ReadContainer True) (Returned h), Print (progress_msg p)]"
    by (simp add: s1_def)
  from loop_events_wait_for_index [OF loop this] obtain s2 where
    s2: "wait_for_index env p s1 = Some (r, s2)"
        "trace s2 = (trace s @
          [Call (ReplaceContainer container_name ''/id'' policy_exclude_field2) (Returned h0),
           Print (''Indexing policy updated'' @ [CHR 0x0A]),
           Call (ReadContainer True) (Returned h), Print (progress_msg p)]) @ evs"
    by blast
  show ?thesis
  proof (cases r)
    case (Inl e)
    with start s2 show ?thesis by (simp add: cell11_def)
  next
    case (Inr u)
    with start s2 show ?thesis by (simp add: cell11_def print_def emit_def)
  qed
qed

text \<open>
  C4. The loop of cell 11 leaves at once, without a further call, when the progress it holds
  is \<^verbatim>\<open>'100'\<close>. When the progress is not \<^verbatim>\<open>'100'\<close>, it sleeps five seconds and reads the
  container: an exception of the read or a missing header ends the loop with that
  exception, and otherwise the header value is printed and the loop goes on from it. So the
  loop returns with the result \<open>r\<close> exactly when the service's answers, turn by turn, make
  up events \<open>loop_events\<close> that end with \<open>r\<close>, and these are then the events of the loop: it
  ends normally after the turn whose read reports \<^verbatim>\<open>'100'\<close>, and a turn is taken exactly
  when the value before it is not \<^verbatim>\<open>'100'\<close>. Nothing bounds the number of turns: the loop
  runs forever exactly when every turn is answered with a progress other than \<^verbatim>\<open>'100'\<close>, as
  against a service that always answers and never with \<^verbatim>\<open>'100'\<close>. The same holds of the cell
  as a whole, whose first reading precedes the loop.
\<close>

theorem wait_for_index_until_100:
  "wait_for_index env ''100'' s = Some (Inr (), s) \<and>
   (p \<noteq> ''100'' \<longrightarrow>
      wait_for_index env p s =
        (case srv_read_container env (trace s @ [Sleep 5]) True of
           Inl e \<Rightarrow>
             Some (Inl e,
               \<lparr>trace = trace s @ [Sleep 5, Call (ReadContainer True) (Raised e)],
                last_response_headers = last_response_headers s\<rparr>)
         | Inr h \<Rightarrow>
             (case map_of h progress_header of
                None \<Rightarrow>
                  Some (Inl (KeyError progress_header),
                    \<lparr>trace = trace s @ [Sleep 5, Call (ReadContainer True) (Returned h)],
                     last_response_headers = h\<rparr>)
              | Some p' \<Rightarrow>
                  wait_for_index env p'
                    \<lparr>trace = trace s @
                       [Sleep 5, Call (ReadContainer True) (Returned h), Print (progress_msg p')],
                     last_response_headers = h\<rparr>))) \<and>
   (wait_for_index env p s = Some (r, s') \<longrightarrow>
      (\<exists>evs. trace s' = trace s @ evs \<and> loop_events env (trace s) p evs r)) \<and>
   (loop_events env (trace s) p evs r \<longrightarrow>
      (\<exists>s'. wait_for_index env p s = Some (r, s') \<and> trace s' = trace s @ evs)) \<and>
   (wait_for_index env p s = Some (Inr (), s') \<longrightarrow>
      (\<exists>new. trace s' = trace s @ new \<and> waited p new)) \<and>
   (wait_for_index env p s = None \<longleftrightarrow> (\<forall>n. still_waiting env (trace s) p n)) \<and>
   (never_complete env \<and> p \<noteq> ''100'' \<longrightarrow> wait_for_index env p s = None) \<and>
   (cell11 env s = Some (Inr (), s') \<longrightarrow>
      (\<exists>h0 h p new.
           trace s' = trace s @
             [Call (ReplaceContainer container_name ''/id'' policy_exclude_field2) (Returned h0),
              Print (''Indexing policy updated'' @ [CHR 0x0A]),
              Call (ReadContainer True) (Returned h), Print (progress_msg p)] @ new @
             [Print ([CHR 0x0A] @ ''Index transformation completed'' @ [CHR 0x0A])] \<and>
           map_of h progress_header = Some p \<and> waited p new)) \<and>
   (srv_replace_container env (trace s) container_name ''/id'' policy_exclude_field2 = Inr h0 \<and>
    srv_read_container env
        (trace s @
          [Call (ReplaceContainer container_name ''/id'' policy_exclude_field2) (Returned h0),
           Print (''Indexing policy updated'' @ [CHR 0x0A])]) True = Inr h1 \<and>
    map_of h1 progress_header = Some p \<and>
    loop_events env
        (trace s @
          [Call (ReplaceContainer container_name ''/id'' policy_exclude_field2) (Returned h0),
           Print (''Indexing policy updated'' @ [CHR 0x0A]),
           Call (ReadContainer True) (Returned h1), Print (progress_msg p)]) p evs r \<longrightarrow>
      (\<exists>s'. cell11 env s = Some (r, s') \<and>
           trace s' = trace s @
             [Call (ReplaceContainer container_name ''/id'' policy_exclude_field2) (Returned h0),
              Print (''Indexing policy updated'' @ [CHR 0x0A]),
              Call (ReadContainer True) (Returned h1), Print (progress_msg p)] @ evs @
             (case r of
                Inl e \<Rightarrow> []
              | Inr u \<Rightarrow> [Print ([CHR 0x0A] @ ''Index transformation completed'' @ [CHR 0x0A])])))"
proof (intro conjI impI)
  show "wait_for_index env ''100'' s = Some (Inr (), s)"
    by (subst wait_for_index.simps) simp
next
  assume "p \<noteq> ''100''"
  then show "wait_for_index env p s =
        (case srv_read_container env (trace s @ [Sleep 5]) True of
           Inl e \<Rightarrow>
             Some (Inl e,
               \<lparr>trace = trace s @ [Sleep 5, Call (ReadContainer True) (Raised e)],
                last_response_headers = last_response_headers s\<rparr>)
         | Inr h \<Rightarrow>
             (case map_of h progress_header of
                None \<Rightarrow>
                  Some (Inl (KeyError progress_header),
                    \<lparr>trace = trace s @ [Sleep 5, Call (ReadContainer True) (Returned h)],
                     last_response_headers = h\<rparr>)
              | Some p' \<Rightarrow>
                  wait_for_index env p'
                    \<lparr>trace = trace s @
                       [Sleep 5, Call (ReadContainer True) (Returned h), Print (progress_msg p')],
                     last_response_headers = h\<rparr>))"
    by (rule wait_for_index_turn)
next
  assume "wait_for_index env p s = Some (r, s')"
  from wait_for_index_loop_events [OF this]
  show "\<exists>evs. trace s' = trace s @ evs \<and> loop_events env (trace s) p evs r" by simp
next
  assume "loop_events env (trace s) p evs r"
  from loop_events_wait_for_index [OF this refl]
  show "\<exists>s'. wait_for_index env p s = Some (r, s') \<and> trace s' = trace s @ evs" .
next
  assume "wait_for_index env p s = Some (Inr (), s')"
  from wait_for_index_waited [OF this]
  show "\<exists>new. trace s' = trace s @ new \<and> waited p new" by simp
next
  show "wait_for_index env p s = None \<longleftrightarrow> (\<forall>n. still_waiting env (trace s) p n)"
    by (rule wait_for_index_None_iff)
next
  assume a: "never_complete env \<and> p \<noteq> ''100''"
  show "wait_for_index env p s = None"
  proof (cases "wait_for_index env p s")
    case None
    then show ?thesis .
  next
    case (Some rs)
    from wait_for_index_never [OF Some] a show ?thesis by simp
  qed
next
  assume "cell11 env s = Some (Inr (), s')"
  then show "\<exists>h0 h p new.
           trace s' = trace s @
             [Call (ReplaceContainer container_name ''/id'' policy_exclude_field2) (Returned h0),
              Print (''Indexing policy updated'' @ [CHR 0x0A]),
              Call (ReadContainer True) (Returned h), Print (progress_msg p)] @ new @
             [Print ([CHR 0x0A] @ ''Index transformation completed'' @ [CHR 0x0A])] \<and>
           map_of h progress_header = Some p \<and> waited p new"
    by (rule cell11_ok)
next
  assume a: "srv_replace_container env (trace s) container_name ''/id'' policy_exclude_field2 = Inr h0 \<and>
    srv_read_container env
        (trace s @
          [Call (ReplaceContainer container_name ''/id'' policy_exclude_field2) (Returned h0),
           Print (''Indexing policy updated'' @ [CHR 0x0A])]) True = Inr h1 \<and>
    map_of h1 progress_header = Some p \<and>
    loop_events env
        (trace s @
          [Call (ReplaceContainer container_name ''/id'' policy_exclude_field2) (Returned h0),
           Print (''Indexing policy updated'' @ [CHR 0x0A]),
           Call (ReadContainer True) (Returned h1), Print (progress_msg p)]) p evs r"
  show "\<exists>s'. cell11 env s = Some (r, s') \<and>
           trace s' = trace s @
             [Call (ReplaceContainer container_name ''/id'' policy_exclude_field2) (Returned h0),
              Print (''Indexing policy updated'' @ [CHR 0x0A]),
              Call (ReadContainer True) (Returned h1), Print (progress_msg p)] @ evs @
             (case r of
                Inl e \<Rightarrow> []
              | Inr u \<Rightarrow> [Print ([CHR 0x0A] @ ''Index transformation completed'' @ [CHR 0x0A])])"
    by (rule cell11_returns) (use a in blast)+
qed

text \<open>The simulated service reports 60, 60 and then 100; the stuck one never does.\<close>

lemma sim_wait:
  "wait_for_index sim_env ''60'' init =
     Some (Inr (),
       \<lparr>trace =
          [Sleep 5, Call (ReadContainer True) (Returned [(progress_header, ''60'')]),
           Print (progress_msg ''60''),
           Sleep 5, Call (ReadContainer True) (Returned [(progress_header, ''100'')]),
           Print (progress_msg ''100'')],
        last_response_headers = [(progress_header, ''100'')]\<rparr>)"
  by (simp add: wait_for_index.simps turn_cases sim_env_def init_def progress_header_def
        progress_msg_def)

lemma sim_cell11:
  "cell11 sim_env init =
     Some (Inr (),
       \<lparr>trace =
          [Call (ReplaceContainer container_name ''/id'' policy_exclude_field2) (Returned []),
           Print (''Indexing policy updated'' @ [CHR 0x0A]),
           Call (ReadContainer True) (Returned [(progress_header, ''60'')]),
           Print (progress_msg ''60''),
           Sleep 5, Call (ReadContainer True) (Returned [(progress_header, ''60'')]),
           Print (progress_msg ''60''),
           Sleep 5, Call (ReadContainer True) (Returned [(progress_header, ''100'')]),
           Print (progress_msg ''100''),
           Print ([CHR 0x0A] @ ''Index transformation completed'' @ [CHR 0x0A])],
        last_response_headers = [(progress_header, ''100'')]\<rparr>)"
  by (simp add: cell11_def cell11_start_cases read_progress_cases wait_for_index.simps turn_cases
        sim_env_def init_def progress_header_def progress_msg_def print_def emit_def)

lemma stuck_env_never_complete: "never_complete stuck_env"
  by (simp add: never_complete_def stuck_env_def progress_header_def)

lemma sim_loop_events:
  "loop_events sim_env (trace init) ''60''
     [Sleep 5, Call (ReadContainer True) (Returned [(progress_header, ''60'')]),
      Print (progress_msg ''60''),
      Sleep 5, Call (ReadContainer True) (Returned [(progress_header, ''100'')]),
      Print (progress_msg ''100'')] (Inr ())"
  by (simp add: sim_env_def init_def progress_header_def)

theorem wait_for_index_until_100_witness:
  "(\<exists>s'. wait_for_index sim_env ''60'' init = Some (Inr (), s') \<and>
         (\<exists>new. trace s' = trace init @ new \<and> waited ''60'' new)) \<and>
   never_complete stuck_env \<and> wait_for_index stuck_env ''60'' init = None \<and>
   (\<exists>s'. cell11 sim_env init = Some (Inr (), s') \<and>
      (\<exists>h0 h p new.
           trace s' = trace init @
             [Call (ReplaceContainer container_name ''/id'' policy_exclude_field2) (Returned h0),
              Print (''Indexing policy updated'' @ [CHR 0x0A]),
              Call (ReadContainer True) (Returned h), Print (progress_msg p)] @ new @
             [Print ([CHR 0x0A] @ ''Index transformation completed'' @ [CHR 0x0A])] \<and>
           map_of h progress_header = Some p \<and> waited p new)) \<and>
   (\<exists>s'. wait_for_index sim_env ''60'' init = Some (Inr (), s') \<and>
         trace s' = trace init @
           [Sleep 5, Call (ReadContainer True) (Returned [(progress_header, ''60'')]),
            Print (progress_msg ''60''),
            Sleep 5, Call (ReadContainer True) (Returned [(progress_header, ''100'')]),
            Print (progress_msg ''100'')]) \<and>
   (\<exists>s' evs. wait_for_index sim_env ''60'' init = Some (Inr (), s') \<and>
         trace s' = trace init @ evs \<and> loop_events sim_env (trace init) ''60'' evs (Inr ())) \<and>
   (\<forall>n. still_waiting stuck_env (trace init) ''60'' n)"
proof (intro conjI)
  note loop = sim_wait
  note T = wait_for_index_until_100 [where env = sim_env and s = init and p = "''60''"
      and r = "Inr ()"]
  note S = wait_for_index_until_100 [where env = stuck_env and s = init and p = "''60''"]
  from T [THEN conjunct2, THEN conjunct2, THEN conjunct2, THEN conjunct2, THEN conjunct1,
      rule_format, OF loop] loop
  show "\<exists>s'. wait_for_index sim_env ''60'' init = Some (Inr (), s') \<and>
         (\<exists>new. trace s' = trace init @ new \<and> waited ''60'' new)"
    by blast
  show "never_complete stuck_env" by (rule stuck_env_never_complete)
  have never: "never_complete stuck_env \<and> ''60'' \<noteq> ''100''"
    by (simp add: stuck_env_never_complete)
  from S [THEN conjunct2, THEN conjunct2, THEN conjunct2, THEN conjunct2, THEN conjunct2,
      THEN conjunct2, THEN conjunct1, rule_format, OF never]
  show none: "wait_for_index stuck_env ''60'' init = None" .
  note cell = sim_cell11
  from T [THEN conjunct2, THEN conjunct2, THEN conjunct2, THEN conjunct2, THEN conjunct2,
      THEN conjunct2, THEN conjunct2, THEN conjunct1, rule_format, OF cell] cell
  show "\<exists>s'. cell11 sim_env init = Some (Inr (), s') \<and>
      (\<exists>h0 h p new.
           trace s' = trace init @
             [Call (ReplaceContainer container_name ''/id'' policy_exclude_field2) (Returned h0),
              Print (''Indexing policy updated'' @ [CHR 0x0A]),
              Call (ReadContainer True) (Returned h), Print (progress_msg p)] @ new @
             [Print ([CHR 0x0A] @ ''Index transformation completed'' @ [CHR 0x0A])] \<and>
           map_of h progress_header = Some p \<and> waited p new)"
    by blast
  from T [THEN conjunct2, THEN conjunct2, THEN conjunct2, THEN conjunct1, rule_format,
      OF sim_loop_events]
  show "\<exists>s'. wait_for_index sim_env ''60'' init = Some (Inr (), s') \<and>
         trace s' = trace init @
           [Sleep 5, Call (ReadContainer True) (Returned [(progress_header, ''60'')]),
            Print (progress_msg ''60''),
            Sleep 5, Call (ReadContainer True) (Returned [(progress_header, ''100'')]),
            Print (progress_msg ''100'')]" .
  from T [THEN conjunct2, THEN conjunct2, THEN conjunct1, rule_format, OF loop] loop
  show "\<exists>s' evs. wait_for_index sim_env ''60'' init = Some (Inr (), s') \<and>
         trace s' = trace init @ evs \<and> loop_events sim_env (trace init) ''60'' evs (Inr ())"
    by blast
  from S [THEN conjunct2, THEN conjunct2, THEN conjunct2, THEN conjunct2, THEN conjunct2,
      THEN conjunct1] none
  show "\<forall>n. still_waiting stuck_env (trace init) ''60'' n" by blast
qed

section \<open>Exceptions leave the notebook\<close>

lemma clean_append [simp]: "clean (xs @ ys) \<longleftrightarrow> clean xs \<and> clean ys"
  by (simp add: clean_def)

lemma clean_Nil [simp]: "clean []"
  by (simp add: clean_def)

lemma clean_Cons [simp]:
  "clean (ev # evs) \<longleftrightarrow> raise_of ev = None \<and> key_error_due ev = None \<and> clean evs"
  by (simp add: clean_def)

lemma propagated_Inr [simp]: "propagated (Inr a) evs = clean evs"
  by (simp add: propagated_def)

lemma propagated_InlI:
  "clean pre \<Longrightarrow> aborts_with e ev post \<Longrightarrow> propagated (Inl e) (pre @ ev # post)"
  unfolding propagated_def by (simp only: sum.case) blast

lemma propagated_raise: "propagated (Inl e) [Call c (Raised e)]"
  using propagated_InlI [of "[]" e "Call c (Raised e)" "[]"] by simp

lemma propagated_Inl_type:
  "propagated (Inl e :: exn + 'a) evs \<Longrightarrow> propagated (Inl e :: exn + 'b) evs"
  by (simp add: propagated_def)

lemma propagated_append:
  assumes "propagated (Inr a) xs" and "propagated r ys"
  shows "propagated r (xs @ ys)"
proof (cases r)
  case (Inr b)
  with assms show ?thesis by simp
next
  case (Inl e)
  with assms obtain pre ev post where
    ys: "ys = pre @ ev # post" "clean pre" "aborts_with e ev post"
    by (auto simp: propagated_def)
  from assms(1) ys(2) have "clean (xs @ pre)" by simp
  from propagated_InlI [OF this ys(3)] show ?thesis by (simp add: Inl ys(1))
qed

lemma disciplinedI:
  "(\<And>s r s'. m s = (r, s') \<Longrightarrow> \<exists>new. trace s' = trace s @ new \<and> propagated r new) \<Longrightarrow>
     disciplined m"
  by (simp add: disciplined_def)

lemma disciplinedD:
  "disciplined m \<Longrightarrow> m s = (r, s') \<Longrightarrow> \<exists>new. trace s' = trace s @ new \<and> propagated r new"
  by (simp add: disciplined_def)

lemma disciplined_then_do:
  assumes m: "disciplined m" and f: "\<And>a. disciplined (f a)"
  shows "disciplined (then_do m f)"
proof (rule disciplinedI)
  fix s r s'
  assume run: "then_do m f s = (r, s')"
  obtain r1 s1 where m1: "m s = (r1, s1)" by (cases "m s")
  from disciplinedD [OF m m1] obtain new1 where
    n1: "trace s1 = trace s @ new1" "propagated r1 new1" by blast
  show "\<exists>new. trace s' = trace s @ new \<and> propagated r new"
  proof (cases r1)
    case (Inl e)
    with run m1 have "r = Inl e" "s' = s1" by (simp_all add: then_do_def)
    with n1 Inl show ?thesis by (auto intro: propagated_Inl_type)
  next
    case (Inr a)
    with run m1 have "f a s1 = (r, s')" by (simp add: then_do_def)
    from disciplinedD [OF f this] obtain new2 where
      n2: "trace s' = trace s1 @ new2" "propagated r new2" by blast
    from n1(2) Inr have "propagated (Inr a) new1" by simp
    from propagated_append [OF this n2(2)] n1(1) n2(1) show ?thesis by auto
  qed
qed

lemma disciplined_if:
  "disciplined m1 \<Longrightarrow> disciplined m2 \<Longrightarrow> disciplined (if b then m1 else m2)"
  by simp

lemma disciplined_print: "disciplined (print msg)"
  by (rule disciplinedI) (auto simp: print_def emit_def)

lemma disciplined_print_noend: "disciplined (print_noend msg)"
  by (rule disciplinedI) (auto simp: print_noend_def emit_def)

lemma disciplined_sleep: "disciplined (sleep n)"
  by (rule disciplinedI) (auto simp: sleep_def emit_def)

lemma disciplined_time_time: "disciplined (time_time env)"
  by (rule disciplinedI) (auto simp: time_time_def emit_def Let_def)

lemma disciplined_return_ok: "disciplined (return_ok x)"
  by (rule disciplinedI) (auto simp: return_ok_def)

lemma disciplined_done_ok: "disciplined done_ok"
  by (simp add: done_ok_def disciplined_return_ok)

text \<open>The calls whose reply the notebook does not subscript.\<close>

lemma disciplined_sdk:
  "disciplined (create_database env n)"
  "disciplined (delete_container env n)"
  "disciplined (create_container env n pk)"
  "disciplined (urlopen_json env url)"
  "disciplined (create_item env doc)"
  "disciplined (replace_container env n pk pol)"
  "disciplined (delete_database env n)"
  unfolding disciplined_def create_database_def delete_container_def
    create_container_def urlopen_json_def create_item_def
    replace_container_def delete_database_def
  by (auto simp: invoke_def record_call_def propagated_raise split: sum.splits prod.splits)

text \<open>The listing with the search for the container's name in it.\<close>

lemma any_id_is_cases:
  "any_id_is name ds =
     (if id_missing_first name ds then Inl (KeyError ''id'')
      else Inr (list_ex (\<lambda>d. map_of d ''id'' = Some (PStr name)) ds))"
  by (induction ds) (auto simp: id_missing_first_def split: option.splits)

lemma disciplined_listing:
  "disciplined (then_do (list_containers env)
     (\<lambda>(containers, _). Pair (any_id_is container_name containers)))"
proof (rule disciplinedI)
  fix s :: "'a state" and r s'
  assume run: "then_do (list_containers env)
     (\<lambda>(containers, _). Pair (any_id_is container_name containers)) s = (r, s')"
  show "\<exists>new. trace s' = trace s @ new \<and> propagated r new"
  proof (cases "srv_list_containers env (trace s)")
    case (Inl e)
    with run show ?thesis
      by (auto simp: then_do_def list_containers_def invoke_def record_call_def propagated_raise)
  next
    case (Inr dsh)
    obtain ds h where dsh: "dsh = (ds, h)" by (cases dsh)
    from run Inr dsh have r: "r = any_id_is container_name ds" and
      tr: "trace s' = trace s @ [Call ListContainers (ReturnedDicts ds h)]"
      by (auto simp: then_do_def list_containers_def invoke_def record_call_def)
    show ?thesis
    proof (cases "id_missing_first container_name ds")
      case True
      then have "aborts_with (KeyError ''id'') (Call ListContainers (ReturnedDicts ds h)) []"
        by simp
      from propagated_InlI [OF clean_Nil this] True r tr show ?thesis
        by (auto simp: any_id_is_cases)
    next
      case False
      with r tr show ?thesis by (auto simp: any_id_is_cases)
    qed
  qed
qed

lemma cell1_reset_assoc:
  "cell1_reset env =
     then_do (then_do (list_containers env)
                (\<lambda>(containers, _). Pair (any_id_is container_name containers)))
       (\<lambda>found.
          then_do (if found
                   then then_do (delete_container env container_name)
                          (\<lambda>_. print ''Container dropped'')
                   else done_ok) (\<lambda>_.
          then_do (create_container env container_name ''/id'') (\<lambda>_.
          print ''Container created'')))"
  by (rule ext) (simp add: cell1_reset_def then_do_def split: prod.splits sum.splits)

text \<open>The read with the subscript of its headers.\<close>

lemma disciplined_read_header:
  "disciplined (then_do (read_container env True) (\<lambda>_. last_response_header progress_header))"
proof (rule disciplinedI)
  fix s :: "'a state" and r s'
  assume run: "then_do (read_container env True)
      (\<lambda>_. last_response_header progress_header) s = (r, s')"
  show "\<exists>new. trace s' = trace s @ new \<and> propagated r new"
  proof (cases "srv_read_container env (trace s) True")
    case (Inl e)
    with run show ?thesis
      by (auto simp: then_do_def read_container_def invoke_def record_call_def propagated_raise)
  next
    case (Inr h)
    show ?thesis
    proof (cases "map_of h progress_header")
      case None
      then have "aborts_with (KeyError progress_header) (Call (ReadContainer True) (Returned h)) []"
        by simp
      from propagated_InlI [OF clean_Nil this] run Inr None show ?thesis
        by (auto simp: then_do_def read_container_def invoke_def record_call_def
              last_response_header_def)
    next
      case (Some p)
      with run Inr show ?thesis
        by (auto simp: then_do_def read_container_def invoke_def record_call_def
              last_response_header_def)
    qed
  qed
qed

lemma read_progress_assoc:
  "read_progress env =
     then_do (then_do (read_container env True) (\<lambda>_. last_response_header progress_header))
       (\<lambda>index_transformation_progress.
          then_do (print_noend ([CHR 0x0D] @ ''Current index transformation progress: ''
                @ index_transformation_progress @ ''%'')) (\<lambda>_.
          return_ok index_transformation_progress))"
  by (rule ext) (simp add: read_progress_def then_do_def split: prod.splits sum.splits)

lemmas disciplined_intros = disciplined_then_do disciplined_if disciplined_print
  disciplined_print_noend disciplined_sleep disciplined_time_time disciplined_return_ok
  disciplined_done_ok disciplined_sdk disciplined_listing disciplined_read_header

lemma disciplined_insert_docs: "disciplined (insert_docs env docs n)"
  by (induction docs arbitrary: n) (auto intro!: disciplined_intros)

lemma disciplined_cell1_reset: "disciplined (cell1_reset env)"
  unfolding cell1_reset_assoc
  by (intro disciplined_intros)

lemma disciplined_cell3: "disciplined (cell3 env)"
  unfolding cell3_def by (intro disciplined_intros disciplined_insert_docs)

lemma disciplined_cell7: "disciplined (cell7 env)"
  unfolding cell7_def by (intro disciplined_intros)

lemma disciplined_read_progress: "disciplined (read_progress env)"
  unfolding read_progress_assoc
  by (intro disciplined_intros)

lemma disciplined_cell17: "disciplined (cell17 env)"
  unfolding cell17_def by (intro disciplined_intros)


text \<open>A query cell: the subscript of the headers comes after the second clock reading
  and the first two lines.\<close>

lemma disciplined_query_and_measure: "disciplined (query_and_measure env q)"
proof (rule disciplinedI)
  fix s :: "'a state" and r s'
  assume run: "query_and_measure env q s = (r, s')"
  let ?t0 = "wall_clock env (trace s)"
  let ?tr1 = "trace s @ [Clock ?t0]"
  show "\<exists>new. trace s' = trace s @ new \<and> propagated r new"
  proof (cases "srv_query_items env ?tr1 q True")
    case (Inl e)
    with run have r: "r = Inl e" and
      tr: "trace s' = trace s @ ([Clock ?t0] @ Call (QueryItems q True) (Raised e) # [])"
      by (auto simp: query_and_measure_cases Let_def)
    have "propagated (Inl e :: exn + unit) ([Clock ?t0] @ Call (QueryItems q True) (Raised e) # [])"
      by (rule propagated_InlI) simp_all
    with r tr show ?thesis by blast
  next
    case (Inr pages)
    let ?ev = "Call (QueryItems q True) (ReturnedPages pages)"
    let ?t1 = "wall_clock env (?tr1 @ [?ev])"
    let ?hdrs = "if pages = [] then last_response_headers s else snd (last pages)"
    let ?m1 = "''Got '' @ str_nat (length (concat (map fst pages))) @ '' result(s)'' @ [CHR 0x0A]"
    let ?m2 = "''Time elapsed: '' @ fmt_elapsed_ms env ?t0 ?t1 @ '' ms'' @ [CHR 0x0A]"
    show ?thesis
    proof (cases "map_of ?hdrs ''x-ms-request-charge''")
      case None
      with run Inr have r: "r = Inl (KeyError ''x-ms-request-charge'')" and
        tr: "trace s' = trace s @ ([Clock ?t0] @ ?ev # [Clock ?t1, Print ?m1, Print ?m2])"
        by (auto simp: query_and_measure_cases Let_def)
      from None have "aborts_with (KeyError ''x-ms-request-charge'') ?ev
          [Clock ?t1, Print ?m1, Print ?m2]"
        by (cases "pages = []") simp_all
      then have "propagated (Inl (KeyError ''x-ms-request-charge'') :: exn + unit)
          ([Clock ?t0] @ ?ev # [Clock ?t1, Print ?m1, Print ?m2])"
        by (intro propagated_InlI) simp_all
      with r tr show ?thesis by blast
    next
      case (Some charge)
      with run Inr have r: "r = Inr ()" and
        tr: "trace s' = trace s @ [Clock ?t0, ?ev, Clock ?t1, Print ?m1, Print ?m2,
               Print (''Request charge: '' @ charge @ '' RUs'' @ [CHR 0x0A])]"
        by (auto simp: query_and_measure_cases Let_def)
      from Some have "key_error_due ?ev = None"
        by (cases "pages = []") simp_all
      with r tr show ?thesis by auto
    qed
  qed
qed

lemma disciplined_cells_13_to_17: "disciplined (cells_13_to_17 env)"
  unfolding cells_13_to_17_def cell13_def cell15_def
  by (intro disciplined_intros disciplined_query_and_measure disciplined_cell17)

text \<open>The one handler: the events of a run that starts with the \<^verbatim>\<open>try\<close> statement.\<close>

lemma after_handled_append: "xs \<noteq> [] \<Longrightarrow> after_handled (xs @ ys) = after_handled xs @ ys"
  by (induction xs rule: after_handled.induct) auto

lemma cell1_try_handled:
  assumes "cell1_try env s = (r, s')"
  shows "\<exists>new. new \<noteq> [] \<and> trace s' = trace s @ new \<and> propagated r (after_handled new)"
proof (cases "srv_create_database env (trace s) db_name")
  case (Inr h)
  with assms show ?thesis
    by (auto simp: cell1_try_cases propagated_raise)
next
  case (Inl e)
  with assms show ?thesis
    by (cases "e = conflict") (auto simp: cell1_try_cases propagated_raise)
qed

lemma then_do_handled:
  assumes m: "\<And>s r s'. m s = (r, s') \<Longrightarrow>
            \<exists>new. new \<noteq> [] \<and> trace s' = trace s @ new \<and> propagated r (after_handled new)"
      and f: "\<And>a. disciplined (f a)"
      and run: "then_do m f s = (r, s')"
  shows "\<exists>new. new \<noteq> [] \<and> trace s' = trace s @ new \<and> propagated r (after_handled new)"
proof -
  obtain r1 s1 where m1: "m s = (r1, s1)" by (cases "m s")
  from m [OF m1] obtain new1 where
    n1: "new1 \<noteq> []" "trace s1 = trace s @ new1" "propagated r1 (after_handled new1)" by blast
  show ?thesis
  proof (cases r1)
    case (Inl e)
    with run m1 have "r = Inl e" "s' = s1" by (simp_all add: then_do_def)
    with n1 Inl show ?thesis by (auto intro: propagated_Inl_type)
  next
    case (Inr a)
    with run m1 have "f a s1 = (r, s')" by (simp add: then_do_def)
    from disciplinedD [OF f this] obtain new2 where
      n2: "trace s' = trace s1 @ new2" "propagated r new2" by blast
    from n1(3) Inr have "propagated (Inr a) (after_handled new1)" by simp
    from propagated_append [OF this n2(2)]
    have "propagated r (after_handled (new1 @ new2))"
      by (simp add: after_handled_append [OF n1(1)])
    moreover have "trace s' = trace s @ (new1 @ new2)" by (simp add: n1(2) n2(1))
    moreover have "new1 @ new2 \<noteq> []" using n1(1) by simp
    ultimately show ?thesis by blast
  qed
qed

lemma cell1_handled:
  assumes "cell1 env s = (r, s')"
  shows "\<exists>new. new \<noteq> [] \<and> trace s' = trace s @ new \<and> propagated r (after_handled new)"
  using assms unfolding cell1_def
  by (rule then_do_handled [rotated 2]) (auto intro: cell1_try_handled disciplined_cell1_reset)

lemma cells_1_to_9_handled:
  assumes "cells_1_to_9 env s = (r, s')"
  shows "\<exists>new. new \<noteq> [] \<and> trace s' = trace s @ new \<and> propagated r (after_handled new)"
  using assms unfolding cells_1_to_9_def
proof (rule then_do_handled [rotated 2])
  fix s r s' assume "cell1 env s = (r, s')"
  then show "\<exists>new. new \<noteq> [] \<and> trace s' = trace s @ new \<and> propagated r (after_handled new)"
    by (rule cell1_handled)
next
  fix a :: unit
  show "disciplined (then_do (cell3 env) (\<lambda>_. then_do (cell5 env) (\<lambda>_. then_do (cell7 env) (\<lambda>_. cell9 env))))"
    unfolding cell5_def cell9_def
    by (intro disciplined_intros disciplined_cell3 disciplined_query_and_measure disciplined_cell7)
qed

lemma wait_for_index_propagated:
  assumes "wait_for_index env p s = Some rs"
  shows "\<exists>new. trace (snd rs) = trace s @ new \<and> propagated (fst rs) new"
proof (rule wait_for_index.raw_induct
    [where P = "\<lambda>env p s rs. \<exists>new. trace (snd rs) = trace s @ new \<and> propagated (fst rs) new",
     OF _ assms])
  fix wait :: "'a env \<Rightarrow> string \<Rightarrow> 'a state \<Rightarrow> ((exn + unit) \<times> 'a state) option"
  fix env p s rs
  assume IH: "\<And>env p s rs. wait env p s = Some rs \<Longrightarrow>
          \<exists>new. trace (snd rs) = trace s @ new \<and> propagated (fst rs) new"
  assume body: "(if p \<noteq> ''100''
      then case then_do (sleep 5) (\<lambda>_. read_progress env) s of
           (Inl e, s') \<Rightarrow> Some (Inl e, s')
           | (Inr p, s') \<Rightarrow> wait env p s'
      else Some (Inr (), s)) = Some rs"
  have turn: "disciplined (then_do (sleep 5) (\<lambda>_. read_progress env))"
    by (intro disciplined_intros disciplined_read_progress)
  show "\<exists>new. trace (snd rs) = trace s @ new \<and> propagated (fst rs) new"
  proof (cases "p = ''100''")
    case True
    with body have "rs = (Inr (), s)" by simp
    then show ?thesis by auto
  next
    case False
    obtain r1 s1 where t: "then_do (sleep 5) (\<lambda>_. read_progress env) s = (r1, s1)"
      by (cases "then_do (sleep 5) (\<lambda>_. read_progress env) s")
    from disciplinedD [OF turn t] obtain new1 where
      n1: "trace s1 = trace s @ new1" "propagated r1 new1" by blast
    show ?thesis
    proof (cases r1)
      case (Inl e)
      with body False t have "rs = (Inl e, s1)" by simp
      with n1 Inl show ?thesis by (auto intro: propagated_Inl_type)
    next
      case (Inr p')
      with body False t have "wait env p' s1 = Some rs" by simp
      from IH [OF this] obtain new2 where
        n2: "trace (snd rs) = trace s1 @ new2" "propagated (fst rs) new2" by blast
      from n1(2) Inr have "propagated (Inr p') new1" by simp
      from propagated_append [OF this n2(2)] n1(1) n2(1) show ?thesis by auto
    qed
  qed
qed


lemma cell11_propagated:
  assumes "cell11 env s = Some (r, s')"
  shows "\<exists>new. trace s' = trace s @ new \<and> propagated r new"
proof -
  let ?start = "then_do (replace_container env container_name ''/id'' policy_exclude_field2)
     (\<lambda>_. then_do (print ''Indexing policy updated'') (\<lambda>_. read_progress env))"
  have start: "disciplined ?start"
    by (intro disciplined_intros disciplined_read_progress)
  obtain r1 s1 where t: "?start s = (r1, s1)" by (cases "?start s")
  from disciplinedD [OF start t] obtain new1 where
    n1: "trace s1 = trace s @ new1" "propagated r1 new1" by blast
  show ?thesis
  proof (cases r1)
    case (Inl e)
    with assms t have "r = Inl e" "s' = s1" by (simp_all add: cell11_def)
    with n1 Inl show ?thesis by (auto intro: propagated_Inl_type)
  next
    case (Inr p)
    with assms t obtain r2 s2 where
      loop: "wait_for_index env p s1 = Some (r2, s2)" and
      fin: "(case r2 of Inl e \<Rightarrow> (Inl e, s2)
             | Inr _ \<Rightarrow> print ([CHR 0x0A] @ ''Index transformation completed'') s2) = (r, s')"
      by (auto simp: cell11_def split: option.splits sum.splits)
    from wait_for_index_propagated [OF loop] obtain new2 where
      n2: "trace s2 = trace s1 @ new2" "propagated r2 new2" by auto
    from n1(2) Inr have "propagated (Inr p) new1" by simp
    note both = propagated_append [OF this n2(2)]
    show ?thesis
    proof (cases r2)
      case (Inl e)
      with fin have "r = Inl e" "s' = s2" by simp_all
      with both Inl n1(1) n2(1) show ?thesis by auto
    next
      case (Inr u)
      with fin have "r = Inr ()"
        "trace s' = trace s2 @ [Print ([CHR 0x0A] @ ''Index transformation completed'' @ [CHR 0x0A])]"
        by (auto simp: print_def emit_def)
      with both Inr n1(1) n2(1) show ?thesis by (auto simp: propagated_def)
    qed
  qed
qed

lemma notebook_propagated:
  assumes "notebook env s = Some (r, s')"
  shows "\<exists>new. trace s' = trace s @ new \<and> propagated r (after_handled new)"
proof -
  obtain r1 s1 where t: "cells_1_to_9 env s = (r1, s1)" by (cases "cells_1_to_9 env s")
  from cells_1_to_9_handled [OF t] obtain new1 where
    n1: "new1 \<noteq> []" "trace s1 = trace s @ new1" "propagated r1 (after_handled new1)" by blast
  show ?thesis
  proof (cases r1)
    case (Inl e)
    with assms t have "r = Inl e" "s' = s1" by (simp_all add: notebook_def)
    with n1 Inl show ?thesis by auto
  next
    case (Inr u)
    with assms t obtain r2 s2 where
      c11: "cell11 env s1 = Some (r2, s2)" and
      fin: "(case r2 of Inl e \<Rightarrow> (Inl e, s2) | Inr _ \<Rightarrow> cells_13_to_17 env s2) = (r, s')"
      by (auto simp: notebook_def split: option.splits sum.splits)
    from cell11_propagated [OF c11] obtain new2 where
      n2: "trace s2 = trace s1 @ new2" "propagated r2 new2" by blast
    from n1(3) Inr have "propagated (Inr u) (after_handled new1)" by simp
    note both = propagated_append [OF this n2(2)]
    show ?thesis
    proof (cases r2)
      case (Inl e)
      with fin have "r = Inl e" "s' = s2" by simp_all
      moreover have "trace s2 = trace s @ (new1 @ new2)" by (simp add: n1(2) n2(1))
      moreover from both have "propagated r2 (after_handled (new1 @ new2))"
        by (simp add: after_handled_append [OF n1(1)])
      ultimately show ?thesis using Inl by blast
    next
      case (Inr v)
      with fin have rest: "cells_13_to_17 env s2 = (r, s')" by simp
      from disciplinedD [OF disciplined_cells_13_to_17 rest] obtain new3 where
        n3: "trace s' = trace s2 @ new3" "propagated r new3" by blast
      from both Inr have "propagated (Inr v) (after_handled new1 @ new2)" by simp
      from propagated_append [OF this n3(2)]
      have "propagated r (after_handled (new1 @ (new2 @ new3)))"
        by (simp add: after_handled_append [OF n1(1)])
      moreover have "trace s' = trace s @ (new1 @ (new2 @ new3))"
        by (simp add: n1(2) n2(1) n3(1))
      ultimately show ?thesis by blast
    qed
  qed
qed




text \<open>The notebook runs forever only by waiting: up to the loop nothing went wrong, and
  every turn of the loop is answered with a progress other than \<^verbatim>\<open>'100'\<close>.\<close>

lemma notebook_None:
  assumes "notebook env s = None"
  shows "\<exists>new p. new \<noteq> [] \<and> clean (after_handled new) \<and>
           (\<forall>n. still_waiting env (trace s @ new) p n)"
proof -
  obtain r1 s1 where t: "cells_1_to_9 env s = (r1, s1)" by (cases "cells_1_to_9 env s")
  from cells_1_to_9_handled [OF t] obtain new1 where
    n1: "new1 \<noteq> []" "trace s1 = trace s @ new1" "propagated r1 (after_handled new1)" by blast
  from assms t obtain u where r1: "r1 = Inr u" and c11: "cell11 env s1 = None"
    by (cases r1) (auto simp: notebook_def split: option.splits sum.splits)
  let ?start = "then_do (replace_container env container_name ''/id'' policy_exclude_field2)
     (\<lambda>_. then_do (print ''Indexing policy updated'') (\<lambda>_. read_progress env))"
  have start: "disciplined ?start"
    by (intro disciplined_intros disciplined_read_progress)
  obtain r2 s2 where t2: "?start s1 = (r2, s2)" by (cases "?start s1")
  from disciplinedD [OF start t2] obtain new2 where
    n2: "trace s2 = trace s1 @ new2" "propagated r2 new2" by blast
  from c11 t2 obtain p where r2: "r2 = Inr p" and loop: "wait_for_index env p s2 = None"
    by (cases r2) (auto simp: cell11_def split: option.splits sum.splits)
  from loop have "\<forall>n. still_waiting env (trace s2) p n"
    by (simp add: wait_for_index_None_iff)
  then have "\<forall>n. still_waiting env (trace s @ (new1 @ new2)) p n"
    by (simp add: n1(2) n2(1))
  moreover from n1(3) r1 n2(2) r2 have "clean (after_handled (new1 @ new2))"
    by (simp add: after_handled_append [OF n1(1)])
  moreover have "new1 @ new2 \<noteq> []" using n1(1) by simp
  ultimately show ?thesis by blast
qed

text \<open>
  C5. The \<^verbatim>\<open>try\<close> statement of cell 1 catches the conflict (status code 409) raised by the
  creation of the database and goes on. Any other exception of that call leaves the
  notebook at once. Run from top to bottom, the notebook handles nothing else. When it ends
  normally, no call but the handled one raised, and no reply lacked a key the notebook
  subscripts. When it ends with an exception, the events before the one where it arose
  are such, and that event ends the run: a call that raised is the last event, and so is a
  listing or a read whose reply lacks the key; after a query whose headers lack the charge
  only the second clock reading and the first two lines follow. And when the notebook does
  not end, nothing has gone wrong either: it is waiting in the loop of cell 11, whose every
  turn is answered with a progress other than \<^verbatim>\<open>'100'\<close>. So an exception that arises
  anywhere ends the notebook, with that exception as its result.
\<close>

theorem only_conflict_is_handled:
  "(srv_create_database env (trace s) db_name = Inl conflict \<longrightarrow>
      cell1_try env s =
        (Inr (),
         \<lparr>trace = trace s @ [Call (CreateDatabase db_name) (Raised conflict),
                             Print (''Database already exists'' @ [CHR 0x0A])],
          last_response_headers = last_response_headers s\<rparr>)) \<and>
   (srv_create_database env (trace s) db_name = Inl e \<and> e \<noteq> conflict \<longrightarrow>
      notebook env s =
        Some (Inl e,
          \<lparr>trace = trace s @ [Call (CreateDatabase db_name) (Raised e)],
           last_response_headers = last_response_headers s\<rparr>)) \<and>
   (notebook env s = Some (r, s') \<longrightarrow>
      (\<exists>new. trace s' = trace s @ new \<and> propagated r (after_handled new))) \<and>
   (notebook env s = None \<longrightarrow>
      (\<exists>new p. new \<noteq> [] \<and> clean (after_handled new) \<and>
         (\<forall>n. still_waiting env (trace s @ new) p n)))"
proof (intro conjI impI)
  assume "srv_create_database env (trace s) db_name = Inl conflict"
  then show "cell1_try env s =
        (Inr (),
         \<lparr>trace = trace s @ [Call (CreateDatabase db_name) (Raised conflict),
                             Print (''Database already exists'' @ [CHR 0x0A])],
          last_response_headers = last_response_headers s\<rparr>)"
    by (simp add: cell1_try_cases)
next
  assume "srv_create_database env (trace s) db_name = Inl e \<and> e \<noteq> conflict"
  then have "cell1_try env s =
        (Inl e, \<lparr>trace = trace s @ [Call (CreateDatabase db_name) (Raised e)],
                 last_response_headers = last_response_headers s\<rparr>)"
    by (simp add: cell1_try_cases)
  then show "notebook env s =
        Some (Inl e,
          \<lparr>trace = trace s @ [Call (CreateDatabase db_name) (Raised e)],
           last_response_headers = last_response_headers s\<rparr>)"
    by (simp add: notebook_def cells_1_to_9_def cell1_def then_do_def)
next
  assume "notebook env s = Some (r, s')"
  then show "\<exists>new. trace s' = trace s @ new \<and> propagated r (after_handled new)"
    by (rule notebook_propagated)
next
  assume "notebook env s = None"
  then show "\<exists>new p. new \<noteq> [] \<and> clean (after_handled new) \<and>
         (\<forall>n. still_waiting env (trace s @ new) p n)"
    by (rule notebook_None)
qed

text \<open>The whole notebook against the simulated service, the database being there already;
  against the service whose reads fail in the loop; and against the one that never
  completes.\<close>

lemmas run_defs = notebook_def cells_1_to_9_def cells_13_to_17_def cell1_def cell1_try_cases
  cell1_reset_def cell3_def cell5_def cell7_def cell9_def cell13_def cell15_def cell17_def
  cell11_def cell11_start_cases read_progress_cases turn_cases
  query_and_measure_cases Let_def sim_defs created_def prim_defs progress_header_def

lemma sim_notebook_again:
  "\<exists>s'. notebook sim_env sim_after_setup = Some (Inr (), s')"
  by (simp add: run_defs wait_for_index.simps sim_after_setup_eq)

lemma broken_read_notebook:
  "\<exists>s'. notebook broken_read_env init = Some (Inl (OtherError ''ServiceRequestError''), s')"
  by (simp add: run_defs wait_for_index.simps broken_read_env_def)

lemma never_complete_wait:
  assumes "never_complete env" and "p \<noteq> ''100''"
  shows "wait_for_index env p s = None"
  using wait_for_index_never [of env p s] assms
  by (cases "wait_for_index env p s") auto

lemma never_complete_cell11:
  assumes never: "never_complete env"
    and replace:
      "srv_replace_container env (trace s) container_name ''/id'' policy_exclude_field2 = Inr h0"
  shows "cell11 env s = None"
proof -
  let ?tr = "trace s @
          [Call (ReplaceContainer container_name ''/id'' policy_exclude_field2) (Returned h0),
           Print (''Indexing policy updated'' @ [CHR 0x0A])]"
  from never have "case srv_read_container env ?tr True of
             Inl e \<Rightarrow> False
           | Inr h \<Rightarrow> (case map_of h progress_header of
                        None \<Rightarrow> False
                      | Some p \<Rightarrow> p \<noteq> ''100'')"
    unfolding never_complete_def by blast
  then obtain h p where
    h: "srv_read_container env ?tr True = Inr h" and
    p: "map_of h progress_header = Some p" "p \<noteq> ''100''"
    by (auto split: sum.splits option.splits)
  with replace show ?thesis
    by (simp add: cell11_def cell11_start_cases read_progress_cases
          never_complete_wait [OF never p(2)])
qed

lemma stuck_cells_1_to_9: "\<exists>s1. cells_1_to_9 stuck_env init = (Inr (), s1)"
  by (simp add: run_defs stuck_env_def)

lemma stuck_notebook: "notebook stuck_env init = None"
proof -
  from stuck_cells_1_to_9 obtain s1 where s1: "cells_1_to_9 stuck_env init = (Inr (), s1)"
    by blast
  have "srv_replace_container stuck_env (trace s1) container_name ''/id'' policy_exclude_field2
      = Inr []"
    by (simp add: stuck_env_def sim_env_def)
  from never_complete_cell11 [OF stuck_env_never_complete this] s1 show ?thesis
    by (simp add: notebook_def)
qed

theorem only_conflict_is_handled_witness:
  "srv_create_database sim_env (trace sim_after_setup) db_name = Inl conflict \<and>
   cell1_try sim_env sim_after_setup =
     (Inr (),
      \<lparr>trace = trace sim_after_setup @ [Call (CreateDatabase db_name) (Raised conflict),
                          Print (''Database already exists'' @ [CHR 0x0A])],
       last_response_headers = last_response_headers sim_after_setup\<rparr>) \<and>
   notebook down_env init =
     Some (Inl (CosmosHttpResponseError (Some 503)),
       \<lparr>trace = [Call (CreateDatabase db_name) (Raised (CosmosHttpResponseError (Some 503)))],
        last_response_headers = []\<rparr>) \<and>
   (\<exists>s'. notebook sim_env sim_after_setup = Some (Inr (), s') \<and>
      (\<exists>new. trace s' = trace sim_after_setup @ new \<and>
             propagated (Inr ()) (after_handled new))) \<and>
   (\<exists>s'. notebook broken_read_env init = Some (Inl (OtherError ''ServiceRequestError''), s') \<and>
      (\<exists>new. trace s' = trace init @ new \<and>
             propagated (Inl (OtherError ''ServiceRequestError'') :: exn + unit)
               (after_handled new))) \<and>
   notebook stuck_env init = None \<and>
   (\<exists>new p. new \<noteq> [] \<and> clean (after_handled new) \<and>
      (\<forall>n. still_waiting stuck_env (trace init @ new) p n))"
proof (intro conjI)
  show exists: "srv_create_database sim_env (trace sim_after_setup) db_name = Inl conflict"
    by (simp add: sim_after_setup_eq sim_env_def created_def)
  from only_conflict_is_handled [where env = sim_env and s = sim_after_setup,
      THEN conjunct1, rule_format, OF exists]
  show "cell1_try sim_env sim_after_setup =
     (Inr (),
      \<lparr>trace = trace sim_after_setup @ [Call (CreateDatabase db_name) (Raised conflict),
                          Print (''Database already exists'' @ [CHR 0x0A])],
       last_response_headers = last_response_headers sim_after_setup\<rparr>)" .
  have down: "srv_create_database down_env (trace init) db_name =
        Inl (CosmosHttpResponseError (Some 503)) \<and>
      CosmosHttpResponseError (Some 503) \<noteq> conflict"
    by (simp add: down_env_def conflict_def)
  from only_conflict_is_handled [where env = down_env and s = init
      and e = "CosmosHttpResponseError (Some 503)",
      THEN conjunct2, THEN conjunct1, rule_format, OF down]
  show "notebook down_env init =
     Some (Inl (CosmosHttpResponseError (Some 503)),
       \<lparr>trace = [Call (CreateDatabase db_name) (Raised (CosmosHttpResponseError (Some 503)))],
        last_response_headers = []\<rparr>)"
    by (simp add: init_def)
  from sim_notebook_again obtain s' where
    run: "notebook sim_env sim_after_setup = Some (Inr (), s')" by blast
  from only_conflict_is_handled [where env = sim_env and s = sim_after_setup
      and r = "Inr ()" and s' = s',
      THEN conjunct2, THEN conjunct2, THEN conjunct1, rule_format, OF run] run
  show "\<exists>s'. notebook sim_env sim_after_setup = Some (Inr (), s') \<and>
      (\<exists>new. trace s' = trace sim_after_setup @ new \<and>
             propagated (Inr ()) (after_handled new))"
    by blast
  from broken_read_notebook obtain s'' where
    broken: "notebook broken_read_env init = Some (Inl (OtherError ''ServiceRequestError''), s'')"
    by blast
  from only_conflict_is_handled [where env = broken_read_env and s = init
      and r = "Inl (OtherError ''ServiceRequestError'')" and s' = s'',
      THEN conjunct2, THEN conjunct2, THEN conjunct1, rule_format, OF broken] broken
  show "\<exists>s'. notebook broken_read_env init = Some (Inl (OtherError ''ServiceRequestError''), s') \<and>
      (\<exists>new. trace s' = trace init @ new \<and>
             propagated (Inl (OtherError ''ServiceRequestError'') :: exn + unit)
               (after_handled new))"
    by blast
  show none: "notebook stuck_env init = None" by (rule stuck_notebook)
  from only_conflict_is_handled [where env = stuck_env and s = init,
      THEN conjunct2, THEN conjunct2, THEN conjunct2, rule_format, OF none]
  show "\<exists>new p. new \<noteq> [] \<and> clean (after_handled new) \<and>
      (\<forall>n. still_waiting stuck_env (trace init @ new) p n)" .
qed

end
